theory Spec2Isabelle
  imports Main "HOL-Library.Word"
begin

section \<open>Data model of the solver (solver.hpp)\<close>

text \<open>
  The C++ type \<open>int\<close> is a 32-bit two's complement word, \<open>signed char\<close> an 8-bit one,
  \<open>unsigned\<close> a 32-bit word read unsigned and \<open>size_t\<close> a 64-bit word (LP64).
  Tables reached through raw pointers (\<open>vtab\<close>, \<open>vals\<close>, \<open>phases\<close>, \<open>wtab\<close>) are lists
  whose length is the size of the allocation; a read beyond it is an error value.
  A failing \<open>assert\<close> and the overflow of a signed increment are error values as well.
\<close>

type_synonym cint = "32 word"

type_synonym schar = "8 word"

type_synonym cunsigned = "32 word"

type_synonym csize = "64 word"

datatype error = AssertionFailed | OutOfBounds | SignedOverflow

definition INT_MIN :: cint where
  "INT_MIN = - 2147483648"

text \<open>A clause is referred to by its position in the collection \<open>clauses\<close>;
  the null pointer is \<open>None\<close>.\<close>

type_synonym clause_ref = nat

text \<open>
  Modelled from the spec: the types \<open>Var\<close>, \<open>Level\<close>, \<open>Clause\<close> and \<open>Watch\<close>, whose
  declarations (var.hpp, level.hpp, clause.hpp, watch.hpp) are not among the sources. They
  carry the fields that section 3 of the specification names and the operations below
  use: per variable the decision level (read by \<open>fixed\<close> as \<open>vtab[idx].level\<close>), the reason
  clause and the VMTF timestamp; per decision level the trail position at which the level
  began and the VMTF search pointer at that moment; per clause the literals, the redundant
  and garbage flags and the glue; a watch is a blocking literal with a clause.
\<close>

record Var =
  level :: cint
  reason :: "clause_ref option"
  bumped :: nat

record Level =
  trail_start :: nat
  search :: cint

record Clause =
  literals :: "cint list"
  redundant :: bool
  garbage :: bool
  glue :: cint

type_synonym Watch = "cint \<times> clause_ref"

text \<open>
  The fields of \<open>class Solver\<close> that the operations below read or write. \<open>level_of\<close> is the
  field \<open>level\<close>, \<open>queue_search\<close> the search pointer of \<open>queue\<close>, \<open>stats_fixed\<close> the counter
  \<open>stats.fixed\<close> (stats.hpp is not among the sources: the counter is a mathematical integer).
\<close>

record Solver =
  max_var :: cint
  vtab :: "Var list"
  vals :: "schar list"
  phases :: "schar list"
  wtab :: "Watch list list"
  queue_search :: cint
  unsat :: bool
  level_of :: cint
  control :: "Level list"
  trail :: "cint list"
  propagated :: nat
  clauses :: "Clause list"
  conflict :: "clause_ref option"
  stats_fixed :: int

section \<open>Inline helpers of solver.hpp\<close>

text \<open>\<open>abs\<close> of \<open><cstdlib>\<close> on an \<open>int\<close>.\<close>

definition abs_int :: "cint \<Rightarrow> cint" where
  "abs_int x = (if x <s 0 then - x else x)"

text \<open>
  \<open>int vidx (int lit) const\<close>: three assertions, then \<open>abs\<close>.
\<close>

definition vidx :: "Solver \<Rightarrow> cint \<Rightarrow> error + cint" where
  "vidx s lit =
     (if lit = 0 then Inl AssertionFailed
      else if lit = INT_MIN then Inl AssertionFailed
      else let idx = abs_int lit in
        if idx \<le>s max_var s then Inr idx else Inl AssertionFailed)"

text \<open>\<open>unsigned vlit (int lit) { return (lit < 0) + 2u * (unsigned) vidx (lit); }\<close>\<close>

definition vlit :: "Solver \<Rightarrow> cint \<Rightarrow> error + cunsigned" where
  "vlit s lit =
     (case vidx s lit of
        Inl e \<Rightarrow> Inl e
      | Inr idx \<Rightarrow> Inr ((if lit <s 0 then 1 else 0) + 2 * idx))"

text \<open>Reading a table at an \<open>int\<close> index and at an \<open>unsigned\<close> index.\<close>

definition at_int :: "'a list \<Rightarrow> cint \<Rightarrow> error + 'a" where
  "at_int xs i =
     (if 0 \<le> sint i \<and> nat (sint i) < length xs then Inr (xs ! nat (sint i))
      else Inl OutOfBounds)"

definition at_unsigned :: "'a list \<Rightarrow> cunsigned \<Rightarrow> error + 'a" where
  "at_unsigned xs i = (if unat i < length xs then Inr (xs ! unat i) else Inl OutOfBounds)"

text \<open>\<open>Var & var (int lit) { return vtab [vidx (lit)]; }\<close>\<close>

definition var :: "Solver \<Rightarrow> cint \<Rightarrow> error + Var" where
  "var s lit = (case vidx s lit of Inl e \<Rightarrow> Inl e | Inr idx \<Rightarrow> at_int (vtab s) idx)"

text \<open>\<open>Watches & watches (int lit) { return wtab [vlit (lit)]; }\<close>\<close>

definition watches :: "Solver \<Rightarrow> cint \<Rightarrow> error + Watch list" where
  "watches s lit = (case vlit s lit of Inl e \<Rightarrow> Inl e | Inr i \<Rightarrow> at_unsigned (wtab s) i)"

text \<open>
  \<open>void watch_literal (int lit, int blit, Clause * c)\<close> of solver.hpp:
  \<open>watches (lit).push_back (Watch (blit, c))\<close>.
\<close>

definition watch_literal :: "Solver \<Rightarrow> cint \<Rightarrow> cint \<Rightarrow> clause_ref \<Rightarrow> error + Solver" where
  "watch_literal s lit blit c =
     (case vlit s lit of
        Inl e \<Rightarrow> Inl e
      | Inr i \<Rightarrow>
          if unat i < length (wtab s)
          then Inr (s \<lparr> wtab := (wtab s) [unat i := wtab s ! unat i @ [(blit, c)]] \<rparr>)
          else Inl OutOfBounds)"

text \<open>
  \<open>int val (int lit)\<close>: the \<open>signed char\<close> entry is promoted to \<open>int\<close> and negated for a
  negative literal.
\<close>

definition val :: "Solver \<Rightarrow> cint \<Rightarrow> error + cint" where
  "val s lit =
     (case vidx s lit of
        Inl e \<Rightarrow> Inl e
      | Inr idx \<Rightarrow>
          (case at_int (vals s) idx of
             Inl e \<Rightarrow> Inl e
           | Inr b \<Rightarrow>
               let res = (scast b :: cint) in
               Inr (if lit <s 0 then - res else res)))"

text \<open>
  \<open>int fixed (int lit)\<close>: as \<open>val\<close>, but an assigned variable whose level is not zero
  reads as unassigned.
\<close>

definition fixed :: "Solver \<Rightarrow> cint \<Rightarrow> error + cint" where
  "fixed s lit =
     (case vidx s lit of
        Inl e \<Rightarrow> Inl e
      | Inr idx \<Rightarrow>
          (case at_int (vals s) idx of
             Inl e \<Rightarrow> Inl e
           | Inr b \<Rightarrow>
               let res = (scast b :: cint) in
               if res \<noteq> 0 then
                 (case at_int (vtab s) idx of
                    Inl e \<Rightarrow> Inl e
                  | Inr v \<Rightarrow>
                      let res' = (if level v \<noteq> 0 then 0 else res) in
                      Inr (if lit <s 0 then - res' else res'))
               else Inr (if lit <s 0 then - res else res)))"

text \<open>\<open>bool satisfied () const { return trail.size () == (size_t) max_var; }\<close>\<close>

definition satisfied :: "Solver \<Rightarrow> bool" where
  "satisfied s \<longleftrightarrow> (word_of_nat (length (trail s)) :: csize) = scast (max_var s)"

text \<open>The literals the helpers accept: \<open>0 < |l| \<le> max_var\<close> and \<open>l \<noteq> INT_MIN\<close>.\<close>

definition lit_ok :: "Solver \<Rightarrow> cint \<Rightarrow> bool" where
  "lit_ok s l \<longleftrightarrow> l \<noteq> 0 \<and> l \<noteq> INT_MIN \<and> \<bar>sint l\<bar> \<le> sint (max_var s)"

section \<open>Operations on the trail (sections 4.5 and 4.6 of the specification)\<close>

text \<open>
  The operations below are declared in solver.hpp and defined in files that are not part of
  the sources at hand (propagate.cpp, backtrack.cpp, decide.cpp); the types \<open>Var\<close>, \<open>Level\<close>,
  \<open>Clause\<close> and \<open>Watch\<close> of var.hpp, level.hpp, clause.hpp and watch.hpp are absent too and
  carry the fields the specification names.

  Modelled from the spec: the stored value of a literal that is made true, \<open>1\<close> for a positive
  literal and \<open>-1\<close> for a negative one (value table and phase table, section 3).
\<close>

definition sign_of :: "cint \<Rightarrow> schar" where
  "sign_of lit = (if lit <s 0 then - 1 else 1)"

text \<open>
  Modelled from the spec: \<open>assign (l, reason)\<close> of propagate.cpp (section 4.5). "Require
  \<open>val (l) = unassigned\<close>. Set value, record current level, reason, phase; append to trail. If
  at level 0, increment the fixed-variables counter; such literals are root facts and their
  reason is effectively null."
\<close>

definition assign :: "Solver \<Rightarrow> cint \<Rightarrow> clause_ref option \<Rightarrow> error + Solver" where
  "assign s lit r =
     (case val s lit of
        Inl e \<Rightarrow> Inl e
      | Inr v \<Rightarrow>
          if v \<noteq> 0 then Inl AssertionFailed
          else
            let i = nat \<bar>sint lit\<bar> in
            if i < length (vtab s) \<and> i < length (phases s) then
              Inr (s \<lparr> vals := (vals s) [i := sign_of lit],
                       phases := (phases s) [i := sign_of lit],
                       vtab := (vtab s) [i := (vtab s ! i)
                                 \<lparr> level := level_of s,
                                   reason := (if level_of s = 0 then None else r) \<rparr>],
                       trail := trail s @ [lit],
                       stats_fixed :=
                         (if level_of s = 0 then stats_fixed s + 1 else stats_fixed s) \<rparr>)
            else Inl OutOfBounds)"

text \<open>
  Modelled from the spec: \<open>unassign (l)\<close> of backtrack.cpp (sections 4.5 and 4.6). The
  assignment is cleared and the phase kept; "if \<open>var (l)\<close>'s timestamp is newer than the
  cursor's variable, move the cursor to \<open>var (l)\<close>".
\<close>

definition unassign :: "Solver \<Rightarrow> cint \<Rightarrow> error + Solver" where
  "unassign s lit =
     (case var s lit of
        Inl e \<Rightarrow> Inl e
      | Inr v \<Rightarrow>
          let i = nat \<bar>sint lit\<bar> in
          if i < length (vals s) then
            (case at_int (vtab s) (queue_search s) of
               Inl e \<Rightarrow> Inl e
             | Inr c \<Rightarrow>
                 Inr (s \<lparr> vals := (vals s) [i := 0],
                          queue_search :=
                            (if bumped c < bumped v then abs_int lit else queue_search s) \<rparr>))
          else Inl OutOfBounds)"

text \<open>
  Modelled from the spec: the loop of \<open>backtrack\<close> over the literals above the boundary.
\<close>

fun unassign_all :: "Solver \<Rightarrow> cint list \<Rightarrow> error + Solver" where
  "unassign_all s [] = Inr s"
| "unassign_all s (l # ls) =
     (case unassign s l of Inl e \<Rightarrow> Inl e | Inr s' \<Rightarrow> unassign_all s' ls)"

text \<open>
  Modelled from the spec: the target-level boundary of \<open>backtrack\<close>, the trail position at
  which level \<open>target + 1\<close> began (control stack, section 3); nothing lies above the current
  level.
\<close>

definition boundary :: "Solver \<Rightarrow> cint \<Rightarrow> error + nat" where
  "boundary s target =
     (if target = level_of s then Inr (length (trail s))
      else if nat (sint target) + 1 < length (control s)
        then Inr (trail_start (control s ! (nat (sint target) + 1)))
        else Inl OutOfBounds)"

text \<open>
  Modelled from the spec: \<open>backtrack (target)\<close> of backtrack.cpp (section 4.5). "For each
  literal in the trail above the target-level boundary, clear its assignment (keeping
  phase), and notify VMTF. Truncate trail and control stack; reset \<open>propagated\<close> to the new
  trail end; clear \<open>conflict\<close>." The literals are taken from the end of the trail, and the
  level becomes the target, as the control stack has one entry per level.
\<close>

definition backtrack :: "Solver \<Rightarrow> cint \<Rightarrow> error + Solver" where
  "backtrack s target =
     (if \<not> (0 \<le>s target \<and> target \<le>s level_of s) then Inl AssertionFailed
      else
        (case boundary s target of
           Inl e \<Rightarrow> Inl e
         | Inr b \<Rightarrow>
             if length (trail s) < b \<or> length (control s) < nat (sint target) + 1
             then Inl OutOfBounds
             else
               (case unassign_all s (rev (drop b (trail s))) of
                  Inl e \<Rightarrow> Inl e
                | Inr s' \<Rightarrow>
                    Inr (s' \<lparr> trail := take b (trail s),
                              control := take (nat (sint target) + 1) (control s),
                              level_of := target,
                              propagated := b,
                              conflict := None \<rparr>))))"

text \<open>
  Modelled from the spec: \<open>decide ()\<close> of decide.cpp (sections 3 and 4.6). A decision opens a
  new level: the level is incremented, the control stack gets an entry with the trail
  position at which the level begins and the VMTF search pointer at that moment, and the
  decision literal is assigned without a reason. The literal is a parameter: it stands for
  the variable found by \<open>next_decision_variable ()\<close> with its saved phase. Incrementing an
  \<open>int\<close> that holds \<open>INT_MAX\<close> is undefined and is an error value.
\<close>

definition decide :: "Solver \<Rightarrow> cint \<Rightarrow> error + Solver" where
  "decide s lit =
     (if level_of s = 2147483647 then Inl SignedOverflow
      else
        assign (s \<lparr> level_of := level_of s + 1,
                    control := control s @
                      [\<lparr> trail_start = length (trail s), search = queue_search s \<rparr>] \<rparr>)
          lit None)"

section \<open>The propagator (section 4.3 of the specification)\<close>

text \<open>Exchanging two literal slots of a clause, and storing the literals of a clause.\<close>

definition swap_at :: "nat \<Rightarrow> nat \<Rightarrow> 'a list \<Rightarrow> 'a list" where
  "swap_at i j xs = xs [i := xs ! j, j := xs ! i]"

definition set_literals :: "Solver \<Rightarrow> clause_ref \<Rightarrow> cint list \<Rightarrow> Solver" where
  "set_literals s c ls = s \<lparr> clauses := (clauses s) [c := (clauses s ! c) \<lparr> literals := ls \<rparr>] \<rparr>"

text \<open>
  Modelled from the spec: step 4 of the propagator (section 4.3), "scan \<open>C[2..]\<close> for a
  literal \<open>k\<close> with \<open>val (k) \<noteq> false\<close>". The result is the position of the first such literal;
  the second argument is the position of the head of the list.
\<close>

fun find_nonfalse :: "Solver \<Rightarrow> cint list \<Rightarrow> nat \<Rightarrow> error + nat option" where
  "find_nonfalse s [] j = Inr None"
| "find_nonfalse s (k # ks) j =
     (case val s k of
        Inl e \<Rightarrow> Inl e
      | Inr v \<Rightarrow> if v <s 0 then find_nonfalse s ks (j + 1) else Inr (Some j))"

text \<open>What happens to one watch during the scan of a watch list.\<close>

datatype watch_result = Kept Watch | Dropped | Conflicting

text \<open>
  Modelled from the spec: the treatment of one watch \<open>(blit, C)\<close> of \<open>watches (\<not>l)\<close> by
  \<open>propagate ()\<close> of propagate.cpp (section 4.3, steps 1 to 5).
  \<^enum> "If \<open>val (blit) = true\<close>, keep the watch unchanged and continue."
  \<^enum> "Otherwise load \<open>C\<close>. If \<open>C\<close> is garbage, drop the watch. Ensure \<open>C[0]\<close> = other watch,
    \<open>C[1] = \<not>l\<close> (swap if needed)."
  \<^enum> "If \<open>val (C[0]) = true\<close>, rewrite the watch's blocking literal to \<open>C[0]\<close> and keep it."
  \<^enum> "Otherwise scan \<open>C[2..]\<close> for a literal \<open>k\<close> with \<open>val (k) \<noteq> false\<close>. If found, swap \<open>k\<close>
    into \<open>C[1]\<close>, add a watch of \<open>k\<close> pointing to \<open>C\<close> with \<open>blit = C[0]\<close>, and drop this watch."
  \<^enum> "Otherwise: if \<open>val (C[0]) = false\<close>, this is a conflict: set \<open>conflict = C\<close>, retain the
    watch, stop scanning, return false. If \<open>val (C[0]) = unassigned\<close>, assign \<open>C[0]\<close> true with
    reason \<open>C\<close> and keep the watch."
  True is a positive value and false a negative one; \<open>other_first\<close> is the swap of step 2.
  The watch list under scan is rebuilt and stored when the scan ends, so a new watch for
  \<open>\<not>l\<close> itself in step 4 would be pushed onto the list under scan: that is an error value.
\<close>

definition other_first :: "cint \<Rightarrow> cint list \<Rightarrow> cint list" where
  "other_first l lits = (if lits ! 0 = - l then swap_at 0 1 lits else lits)"

definition propagate_watch :: "Solver \<Rightarrow> cint \<Rightarrow> Watch \<Rightarrow> error + (watch_result \<times> Solver)" where
  "propagate_watch s l w =
     (case w of (blit, c) \<Rightarrow>
        (case val s blit of
           Inl e \<Rightarrow> Inl e
         | Inr b \<Rightarrow>
             if 0 <s b then Inr (Kept (blit, c), s)
             else if length (clauses s) \<le> c then Inl OutOfBounds
             else if garbage (clauses s ! c) then Inr (Dropped, s)
             else if length (literals (clauses s ! c)) < 2 then Inl OutOfBounds
             else
               let lits = other_first l (literals (clauses s ! c));
                   s1 = set_literals s c lits
               in
               (case val s1 (lits ! 0) of
                  Inl e \<Rightarrow> Inl e
                | Inr u \<Rightarrow>
                    if 0 <s u then Inr (Kept (lits ! 0, c), s1)
                    else
                      (case find_nonfalse s1 (drop 2 lits) 2 of
                         Inl e \<Rightarrow> Inl e
                       | Inr (Some j) \<Rightarrow>
                           if lits ! j = - l then Inl AssertionFailed
                           else
                             (case watch_literal (set_literals s1 c (swap_at 1 j lits))
                                     (lits ! j) (lits ! 0) c of
                                Inl e \<Rightarrow> Inl e
                              | Inr s3 \<Rightarrow> Inr (Dropped, s3))
                       | Inr None \<Rightarrow>
                           if u <s 0 then Inr (Conflicting, s1 \<lparr> conflict := Some c \<rparr>)
                           else
                             (case assign s1 (lits ! 0) (Some c) of
                                Inl e \<Rightarrow> Inl e
                              | Inr s2 \<Rightarrow> Inr (Kept (blit, c), s2))))))"

text \<open>
  Modelled from the spec: the scan of \<open>watches (\<not>l)\<close>. The arguments are the watches still to
  be scanned and the watches kept so far; the result says whether a conflict was found and
  gives the new watch list. At a conflict the watch and all watches behind it are retained.
\<close>

fun propagate_watches ::
  "Solver \<Rightarrow> cint \<Rightarrow> Watch list \<Rightarrow> Watch list \<Rightarrow> error + (bool \<times> Watch list \<times> Solver)" where
  "propagate_watches s l [] kept = Inr (False, kept, s)"
| "propagate_watches s l (w # ws) kept =
     (case propagate_watch s l w of
        Inl e \<Rightarrow> Inl e
      | Inr (Kept w', s') \<Rightarrow> propagate_watches s' l ws (kept @ [w'])
      | Inr (Dropped, s') \<Rightarrow> propagate_watches s' l ws kept
      | Inr (Conflicting, s') \<Rightarrow> Inr (True, kept @ w # ws, s'))"

text \<open>
  Modelled from the spec: one round of \<open>propagate ()\<close>, for the literal \<open>l\<close> at position
  \<open>propagated\<close> of the trail: \<open>propagated\<close> advances, \<open>watches (\<not>l)\<close> is scanned and the new
  watch list is stored. The result says whether a conflict was found.
\<close>

definition propagate_literal :: "Solver \<Rightarrow> error + (bool \<times> Solver)" where
  "propagate_literal s =
     (if length (trail s) \<le> propagated s then Inl OutOfBounds
      else
        let l = trail s ! propagated s;
            s0 = s \<lparr> propagated := propagated s + 1 \<rparr>
        in
        (case watches s0 (- l) of
           Inl e \<Rightarrow> Inl e
         | Inr ws \<Rightarrow>
             (case propagate_watches s0 l ws [] of
                Inl e \<Rightarrow> Inl e
              | Inr (found, ws', s1) \<Rightarrow>
                  (case vlit s1 (- l) of
                     Inl e \<Rightarrow> Inl e
                   | Inr i \<Rightarrow>
                       if unat i < length (wtab s1)
                       then Inr (found, s1 \<lparr> wtab := (wtab s1) [unat i := ws'] \<rparr>)
                       else Inl OutOfBounds))))"

text \<open>The measure of the propagation loop: twice the number of unassigned entries of the
  value table, plus the part of the trail still to be propagated.\<close>

definition propagate_measure :: "Solver \<Rightarrow> nat" where
  "propagate_measure s = 2 * count_list (vals s) 0 + length (trail s) - propagated s"

section \<open>Invariants of the solver state\<close>

text \<open>
  The decision level of the variable of a literal, \<open>var (l).level\<close>.
\<close>

definition lit_level :: "Solver \<Rightarrow> cint \<Rightarrow> cint" where
  "lit_level s l = level (vtab s ! nat \<bar>sint l\<bar>)"

text \<open>
  The tables cover the variable indices up to \<open>max_var\<close> and the literal indices up to
  \<open>2 * max_var + 1\<close>, and the search pointer of the queue is a variable index or zero.
\<close>

definition tables_ok :: "Solver \<Rightarrow> bool" where
  "tables_ok s \<longleftrightarrow>
     0 \<le> sint (max_var s)
     \<and> nat (sint (max_var s)) < length (vals s)
     \<and> nat (sint (max_var s)) < length (vtab s)
     \<and> nat (sint (max_var s)) < length (phases s)
     \<and> 2 * nat (sint (max_var s)) + 1 < length (wtab s)
     \<and> 0 \<le> sint (queue_search s) \<and> sint (queue_search s) \<le> sint (max_var s)"

text \<open>
  Invariants of the specification (sections 3 and 8): every literal on the trail is true,
  and the trail contains no variable twice.
\<close>

definition trail_ok :: "Solver \<Rightarrow> bool" where
  "trail_ok s \<longleftrightarrow>
     (\<forall>l \<in> set (trail s). val s l = Inr 1) \<and> distinct (map abs_int (trail s))"

text \<open>
  The control stack has one entry per decision level, the root level first; entry \<open>k\<close> holds
  the trail position at which level \<open>k\<close> began, so that the literals before it are those of
  a level below \<open>k\<close>; and no literal on the trail has a level above the current one.
\<close>

definition control_ok :: "Solver \<Rightarrow> bool" where
  "control_ok s \<longleftrightarrow>
     0 \<le> sint (level_of s)
     \<and> length (control s) = nat (sint (level_of s)) + 1
     \<and> trail_start (control s ! 0) = 0
     \<and> (\<forall>k < length (control s).
           trail_start (control s ! k) \<le> length (trail s)
           \<and> (\<forall>i < length (trail s).
                 i < trail_start (control s ! k) \<longleftrightarrow> sint (lit_level s (trail s ! i)) < int k))
     \<and> (\<forall>l \<in> set (trail s). sint (lit_level s l) \<le> sint (level_of s))"

text \<open>
  The invariants of the tables, the trail and the control stack together.
\<close>

definition solver_inv :: "Solver \<Rightarrow> bool" where
  "solver_inv s \<longleftrightarrow> tables_ok s \<and> trail_ok s \<and> control_ok s"

text \<open>
  Every clause that is not garbage has at least two literals (a unit is a root-level
  assignment, section 3), and its literals are literals of the solver.
\<close>

definition clauses_ok :: "Solver \<Rightarrow> bool" where
  "clauses_ok s \<longleftrightarrow>
     (\<forall>C \<in> set (clauses s). \<not> garbage C \<longrightarrow>
        2 \<le> length (literals C) \<and> (\<forall>k \<in> set (literals C). lit_ok s k))"

text \<open>
  A watch holds a literal of the solver as blocking literal and refers to a clause of the
  collection; \<open>watches_ok\<close> says so of every watch of the watch table.
\<close>

definition watch_ok :: "Solver \<Rightarrow> Watch \<Rightarrow> bool" where
  "watch_ok s w \<longleftrightarrow> lit_ok s (fst w) \<and> snd w < length (clauses s)"

definition watches_ok :: "Solver \<Rightarrow> bool" where
  "watches_ok s \<longleftrightarrow> (\<forall>ws \<in> set (wtab s). \<forall>w \<in> set ws. watch_ok s w)"

text \<open>
  A literal is false: its value is negative.
\<close>

definition is_false :: "Solver \<Rightarrow> cint \<Rightarrow> bool" where
  "is_false s k \<longleftrightarrow> (case val s k of Inl e \<Rightarrow> False | Inr v \<Rightarrow> v <s 0)"

text \<open>
  The test of step 5 of the propagator for a conflict in clause \<open>c\<close>: \<open>C[0]\<close> is false and
  no literal of \<open>C[2..]\<close> is other than false.
\<close>

definition detected_conflict :: "Solver \<Rightarrow> clause_ref \<Rightarrow> bool" where
  "detected_conflict s c \<longleftrightarrow>
     c < length (clauses s)
     \<and> 2 \<le> length (literals (clauses s ! c))
     \<and> is_false s (literals (clauses s ! c) ! 0)
     \<and> (\<forall>k \<in> set (drop 2 (literals (clauses s ! c))). is_false s k)"

text \<open>
  The states in which \<open>propagate ()\<close> is called: the invariants hold and \<open>propagated\<close> is
  a position of the trail or its end.
\<close>

definition propagate_inv :: "Solver \<Rightarrow> bool" where
  "propagate_inv s \<longleftrightarrow>
     solver_inv s \<and> clauses_ok s \<and> watches_ok s \<and> propagated s \<le> length (trail s)"

section \<open>Concrete solver states\<close>

text \<open>
  A small solver state: three variables; \<open>1\<close> is true at the root level, \<open>2\<close> is false at
  level one, \<open>3\<close> is unassigned.
\<close>

definition demo_solver :: Solver where
  "demo_solver =
     \<lparr> max_var = 3,
       vtab = [\<lparr>level = 0, reason = None, bumped = 0\<rparr>,
               \<lparr>level = 0, reason = None, bumped = 1\<rparr>,
               \<lparr>level = 1, reason = None, bumped = 2\<rparr>,
               \<lparr>level = 0, reason = None, bumped = 3\<rparr>],
       vals = [0, 1, - 1, 0],
       phases = [0, 1, - 1, - 1],
       wtab = [[], [], [], [], [], [], [], []],
       queue_search = 3,
       unsat = False,
       level_of = 1,
       control = [\<lparr>trail_start = 0, search = 3\<rparr>, \<lparr>trail_start = 1, search = 3\<rparr>],
       trail = [1, - 2],
       propagated = 2,
       clauses = [],
       conflict = None,
       stats_fixed = 1 \<rparr>"

text \<open>
  A variable without level, reason and timestamp, and an original clause.
\<close>

definition unassigned_var :: Var where
  "unassigned_var = \<lparr> level = 0, reason = None, bumped = 0 \<rparr>"

definition mk_clause :: "cint list \<Rightarrow> Clause" where
  "mk_clause ls = \<lparr> literals = ls, redundant = False, garbage = False, glue = 0 \<rparr>"

text \<open>
  Scenario S5 of the specification after the decision \<open>1\<close>: the clauses \<open>1 2\<close>, \<open>1 -2\<close>,
  \<open>-1 3\<close> and \<open>-1 -3\<close> over three variables, each watched by its two literals.
\<close>

definition demo_conflict :: Solver where
  "demo_conflict =
     \<lparr> max_var = 3,
       vtab = [unassigned_var, unassigned_var \<lparr> level := 1 \<rparr>, unassigned_var, unassigned_var],
       vals = [0, 1, 0, 0],
       phases = [0, 1, - 1, - 1],
       wtab = [[], [], [(2, 0), (- 2, 1)], [(3, 2), (- 3, 3)], [(1, 0)], [(1, 1)],
               [(- 1, 2)], [(- 1, 3)]],
       queue_search = 3,
       unsat = False,
       level_of = 1,
       control = [\<lparr>trail_start = 0, search = 3\<rparr>, \<lparr>trail_start = 0, search = 3\<rparr>],
       trail = [1],
       propagated = 0,
       clauses = [mk_clause [1, 2], mk_clause [1, - 2], mk_clause [- 1, 3], mk_clause [- 1, - 3]],
       conflict = None,
       stats_fixed = 0 \<rparr>"

text \<open>
  Scenario S3 of the specification after the decision \<open>-1\<close>: the clauses \<open>1 2\<close>, \<open>-1 3\<close>,
  \<open>-2 4\<close> and \<open>-3 -4\<close> over four variables, each watched by its two literals.
\<close>

definition demo_clean :: Solver where
  "demo_clean =
     \<lparr> max_var = 4,
       vtab = [unassigned_var, unassigned_var \<lparr> level := 1 \<rparr>, unassigned_var, unassigned_var,
               unassigned_var],
       vals = [0, - 1, 0, 0, 0],
       phases = [0, - 1, - 1, - 1, - 1],
       wtab = [[], [], [(2, 0)], [(3, 1)], [(1, 0)], [(4, 2)], [(- 1, 1)], [(- 4, 3)],
               [(- 2, 2)], [(- 3, 3)]],
       queue_search = 4,
       unsat = False,
       level_of = 1,
       control = [\<lparr>trail_start = 0, search = 4\<rparr>, \<lparr>trail_start = 0, search = 4\<rparr>],
       trail = [- 1],
       propagated = 0,
       clauses = [mk_clause [1, 2], mk_clause [- 1, 3], mk_clause [- 2, 4], mk_clause [- 3, - 4]],
       conflict = None,
       stats_fixed = 0 \<rparr>"

text \<open>The state of scenario S3 before the first decision.\<close>

definition demo_start :: Solver where
  "demo_start =
     demo_clean \<lparr> vtab := [unassigned_var, unassigned_var, unassigned_var, unassigned_var,
                            unassigned_var],
                  vals := [0, 0, 0, 0, 0],
                  level_of := 0,
                  control := [\<lparr>trail_start = 0, search = 4\<rparr>],
                  trail := [] \<rparr>"

section \<open>Auxiliary notions of the proofs\<close>

text \<open>
  The search pointer of the queue after \<open>unassign (l)\<close>.
\<close>

definition new_cursor :: "Solver \<Rightarrow> cint \<Rightarrow> cint" where
  "new_cursor s l =
     (if bumped (vtab s ! nat (sint (queue_search s))) < bumped (vtab s ! nat \<bar>sint l\<bar>)
      then abs_int l else queue_search s)"

text \<open>The value table after clearing the variables of a list of literals.\<close>

fun clear_vals :: "schar list \<Rightarrow> cint list \<Rightarrow> schar list" where
  "clear_vals vs [] = vs"
| "clear_vals vs (l # ls) = clear_vals (vs [nat \<bar>sint l\<bar> := 0]) ls"

text \<open>
  The state after \<open>assign (l, reason)\<close>, given the new entry of the variable table.
\<close>

definition assigned :: "Solver \<Rightarrow> cint \<Rightarrow> Var \<Rightarrow> Solver" where
  "assigned s l v =
     s \<lparr> vals := (vals s) [nat \<bar>sint l\<bar> := sign_of l],
         phases := (phases s) [nat \<bar>sint l\<bar> := sign_of l],
         vtab := (vtab s) [nat \<bar>sint l\<bar> := v],
         trail := trail s @ [l],
         stats_fixed := (if level_of s = 0 then stats_fixed s + 1 else stats_fixed s) \<rparr>"

text \<open>
  Twice the number of unassigned entries of the value table plus the size of the trail: an
  assignment lowers it by one.
\<close>

definition work :: "Solver \<Rightarrow> nat" where
  "work s = 2 * count_list (vals s) 0 + length (trail s)"

text \<open>What one step of the scan guarantees.\<close>

definition watch_step :: "Solver \<Rightarrow> watch_result \<Rightarrow> Solver \<Rightarrow> bool" where
  "watch_step s r s' \<longleftrightarrow>
     solver_inv s' \<and> clauses_ok s' \<and> watches_ok s'
     \<and> max_var s' = max_var s \<and> length (clauses s') = length (clauses s)
     \<and> length (wtab s') = length (wtab s)
     \<and> set (trail s) \<subseteq> set (trail s') \<and> length (trail s) \<le> length (trail s')
     \<and> propagated s' = propagated s
     \<and> (case r of
           Kept w' \<Rightarrow> watch_ok s' w' \<and> conflict s' = conflict s
         | Dropped \<Rightarrow> conflict s' = conflict s
         | Conflicting \<Rightarrow> (\<exists>c. conflict s' = Some c \<and> detected_conflict s' c))"

text \<open>What the scan of a watch list guarantees.\<close>

definition scan_result :: "Solver \<Rightarrow> bool \<Rightarrow> Watch list \<Rightarrow> Solver \<Rightarrow> bool" where
  "scan_result s found ws' s' \<longleftrightarrow>
     solver_inv s' \<and> clauses_ok s' \<and> watches_ok s'
     \<and> max_var s' = max_var s \<and> length (clauses s') = length (clauses s)
     \<and> length (wtab s') = length (wtab s)
     \<and> length (trail s) \<le> length (trail s')
     \<and> propagated s' = propagated s
     \<and> (\<forall>w \<in> set ws'. watch_ok s' w)
     \<and> (if found then \<exists>c. conflict s' = Some c \<and> detected_conflict s' c
         else conflict s' = conflict s)"

section \<open>Signed and unsigned readings of machine integers\<close>

lemma sint_INT_MIN: "sint INT_MIN = - 2147483648"
  by (simp add: INT_MIN_def)

lemma sint_bounds32: "- 2147483648 \<le> sint (x :: cint)" "sint (x :: cint) < 2147483648"
  using sint_ge [of x] sint_lt [of x] by simp_all

lemma sint_eq_INT_MIN: "sint (x :: cint) = - 2147483648 \<longleftrightarrow> x = INT_MIN"
  by (metis sint_INT_MIN word_eq_iff_signed signed_word_eqI)

lemma sint_neg: "x \<noteq> INT_MIN \<Longrightarrow> sint (- x :: cint) = - sint x"
proof -
  assume "x \<noteq> INT_MIN"
  then have "sint x \<noteq> - 2147483648" by (simp add: sint_eq_INT_MIN)
  with sint_bounds32 [of x] have "- (2 ^ 31) \<le> - sint x \<and> - sint x < 2 ^ 31" by simp
  then show ?thesis
    by (simp add: sint_word_minus signed_take_bit_int_eq_self)
qed

lemma sint_eq_0: "sint (x :: cint) = 0 \<longleftrightarrow> x = 0"
  by (metis sint_0 signed_word_eqI)

lemma sint_abs_int: "x \<noteq> INT_MIN \<Longrightarrow> sint (abs_int x) = \<bar>sint x\<bar>"
  by (simp add: abs_int_def word_sless_alt sint_neg)

lemma vidx_iff: "vidx s l = Inr idx \<longleftrightarrow> lit_ok s l \<and> idx = abs_int l"
  by (auto simp: vidx_def lit_ok_def Let_def word_sle_eq sint_abs_int)

lemma vidx_ok: "lit_ok s l \<Longrightarrow> vidx s l = Inr (abs_int l)"
  by (simp add: vidx_iff)

lemma vidx_not_ok: "\<not> lit_ok s l \<Longrightarrow> vidx s l = Inl AssertionFailed"
  by (auto simp: vidx_def lit_ok_def Let_def word_sle_eq sint_abs_int)

lemma neg_INT_MIN: "- INT_MIN = INT_MIN"
  by (simp add: INT_MIN_def)

lemma neg_eq_INT_MIN: "- l = INT_MIN \<longleftrightarrow> l = INT_MIN"
  by (metis neg_INT_MIN minus_minus)

lemma lit_ok_neg: "lit_ok s (- l) \<longleftrightarrow> lit_ok s l"
  by (auto simp: lit_ok_def neg_eq_INT_MIN sint_neg)

lemma abs_int_neg: "l \<noteq> INT_MIN \<Longrightarrow> abs_int (- l) = abs_int l"
proof -
  assume a: "l \<noteq> INT_MIN"
  have "sint (abs_int (- l)) = sint (abs_int l)"
    using a by (simp add: sint_abs_int neg_eq_INT_MIN sint_neg)
  then show ?thesis by (rule signed_word_eqI)
qed

lemma sless_0_neg: "l \<noteq> INT_MIN \<Longrightarrow> l \<noteq> 0 \<Longrightarrow> (- l <s 0) \<longleftrightarrow> \<not> (l <s 0)"
  using sint_eq_0 [of l] by (auto simp: word_sless_alt sint_neg)

lemma at_int_abs:
  "lit_ok s l \<Longrightarrow> nat (sint (max_var s)) < length xs \<Longrightarrow>
   at_int xs (abs_int l) = Inr (xs ! nat \<bar>sint l\<bar>)"
  by (auto simp: at_int_def lit_ok_def sint_abs_int)

lemma sint_scast_schar: "sint (scast (b :: schar) :: cint) = sint b"
  by (rule sint_up_scast) (simp add: is_up)

lemma scast_schar_eq_0: "(scast (b :: schar) :: cint) = 0 \<longleftrightarrow> b = 0"
proof
  assume "(scast b :: cint) = 0"
  then have "sint (scast b :: cint) = 0" by simp
  then have "sint b = sint (0 :: schar)" by (simp add: sint_scast_schar)
  then show "b = 0" by (rule signed_word_eqI)
qed simp

lemma unat_nonneg: "0 \<le> sint (x :: cint) \<Longrightarrow> unat x = nat (sint x)"
proof -
  assume a: "0 \<le> sint x"
  have "uint x = sint x mod 2 ^ 32"
    using uint_word_of_int [of "sint x", where 'a = 32] by simp
  also have "\<dots> = sint x" using a sint_bounds32 [of x] by simp
  finally show ?thesis by (simp add: unat_eq_nat_uint)
qed

lemma unat_vlit:
  assumes "lit_ok s l"
  shows "unat ((if l <s 0 then 1 else 0) + 2 * abs_int l)
       = 2 * nat \<bar>sint l\<bar> + (if sint l < 0 then 1 else 0)"
proof -
  from assms have n: "l \<noteq> INT_MIN" by (simp add: lit_ok_def)
  have a: "unat (abs_int l) = nat \<bar>sint l\<bar>"
    using n by (simp add: unat_nonneg sint_abs_int)
  have b: "nat \<bar>sint l\<bar> < 2147483648"
    using sint_bounds32 [of l] n sint_eq_INT_MIN [of l] by auto
  show ?thesis
    using a b by (simp add: unat_word_ariths word_sless_alt)
qed

section \<open>The helpers of solver.hpp\<close>

text \<open>
  Claim C2. For a literal \<open>l\<close> with \<open>0 < |l| \<le> max_var\<close> and \<open>l \<noteq> INT_MIN\<close>, and a value
  table that covers the indices up to \<open>max_var\<close>: \<open>val l\<close> is the entry of the value table
  at index \<open>|l|\<close>, negated exactly when \<open>l < 0\<close>; \<open>val (- l) = - val l\<close>; and the result is
  one of \<open>-1\<close>, \<open>0\<close>, \<open>1\<close> when the entry is (the table holds nothing else: false,
  unassigned, true).
\<close>

theorem val_negates:
  assumes "lit_ok s l" and "nat (sint (max_var s)) < length (vals s)"
  shows "val s l = Inr (if sint l < 0 then - scast (vals s ! nat \<bar>sint l\<bar>)
                        else scast (vals s ! nat \<bar>sint l\<bar>))
       \<and> val s (- l) = Inr (- projr (val s l))
       \<and> (vals s ! nat \<bar>sint l\<bar> \<in> {- 1, 0, 1} \<longrightarrow> projr (val s l) \<in> {- 1, 0, 1})"
proof -
  from assms(1) have n: "l \<noteq> INT_MIN" "l \<noteq> 0" by (simp_all add: lit_ok_def)
  have ok': "lit_ok s (- l)" using assms(1) by (simp add: lit_ok_neg)
  have 1: "val s l = Inr (if sint l < 0 then - scast (vals s ! nat \<bar>sint l\<bar>)
                        else scast (vals s ! nat \<bar>sint l\<bar>))"
    using assms by (simp add: val_def vidx_ok at_int_abs word_sless_alt)
  have 2: "val s (- l) = Inr (if sint l < 0 then scast (vals s ! nat \<bar>sint l\<bar>)
                        else - scast (vals s ! nat \<bar>sint l\<bar>))"
    using assms ok' n sless_0_neg [of l]
    by (simp add: val_def vidx_ok at_int_abs abs_int_neg word_sless_alt sint_neg)
  show ?thesis
    unfolding 1 2 by auto
qed

theorem val_negates_witness:
  "lit_ok demo_solver (- 2) \<and> nat (sint (max_var demo_solver)) < length (vals demo_solver)
   \<and> val demo_solver (- 2) = Inr 1 \<and> val demo_solver 2 = Inr (- 1)"
  using val_negates [of demo_solver "- 2"]
  by (simp add: demo_solver_def lit_ok_def INT_MIN_def)

text \<open>
  Claim C3. For a literal \<open>l\<close> with \<open>0 < |l| \<le> max_var\<close> and \<open>l \<noteq> INT_MIN\<close>, the index
  computed by \<open>vlit\<close>, which \<open>watches\<close> uses to read the watch table, is \<open>2 * |l| + 1\<close> if
  \<open>l < 0\<close> and \<open>2 * |l|\<close> if \<open>l > 0\<close>; the unsigned arithmetic does not wrap.
\<close>

theorem vlit_index:
  assumes "lit_ok s l"
  shows "\<exists>i. vlit s l = Inr i
           \<and> unat i = 2 * nat \<bar>sint l\<bar> + (if sint l < 0 then 1 else 0)
           \<and> watches s l = at_unsigned (wtab s) i"
  using assms by (simp add: vlit_def watches_def vidx_ok unat_vlit)

theorem vlit_index_witness:
  "lit_ok demo_solver (- 2) \<and> vlit demo_solver (- 2) = Inr 5 \<and> vlit demo_solver 3 = Inr 6"
  using vlit_index [of demo_solver "- 2"]
  by (simp add: demo_solver_def lit_ok_def INT_MIN_def vlit_def vidx_def abs_int_def
      word_sless_alt word_sle_eq)

text \<open>
  Claim C4. \<open>satisfied ()\<close> is true if and only if the size of the trail equals \<open>max_var\<close>.
  A \<open>vector<int>\<close> in a 64-bit address space holds fewer than \<open>2 ^ 62\<close> elements, so the
  conversion of \<open>max_var\<close> to \<open>size_t\<close> cannot make a negative \<open>max_var\<close> equal to the size.
\<close>

theorem satisfied_iff_trail_full:
  assumes "length (trail s) < 2 ^ 62"
  shows "satisfied s \<longleftrightarrow> int (length (trail s)) = sint (max_var s)"
proof -
  let ?n = "length (trail s)" and ?m = "sint (max_var s)"
  have "unat (word_of_nat ?n :: csize) = ?n"
    using assms by (simp add: unat_of_nat)
  then have n: "uint (word_of_nat ?n :: csize) = int ?n"
    by (metis uint_nat)
  have m: "uint (scast (max_var s) :: csize) = ?m mod 2 ^ 64"
    unfolding scast_eq uint_word_of_int by simp
  have "satisfied s \<longleftrightarrow> uint (word_of_nat ?n :: csize) = uint (scast (max_var s) :: csize)"
    by (simp add: satisfied_def word_uint_eq_iff)
  also have "\<dots> \<longleftrightarrow> int ?n = ?m mod 2 ^ 64" by (simp only: n m)
  also have "\<dots> \<longleftrightarrow> int ?n = ?m"
  proof (cases "0 \<le> ?m")
    case True
    then show ?thesis using sint_bounds32 [of "max_var s"] by simp
  next
    case False
    then have "(?m + 18446744073709551616) mod 18446744073709551616 = ?m + 18446744073709551616"
      using sint_bounds32 [of "max_var s"] by (intro mod_pos_pos_trivial) simp_all
    then have "?m mod 2 ^ 64 = ?m + 2 ^ 64"
      by (simp only: mod_add_self2) simp
    moreover have "int ?n < 2 ^ 62" using assms by (simp flip: of_nat_less_iff)
    ultimately show ?thesis using False sint_bounds32 [of "max_var s"] by simp
  qed
  finally show ?thesis .
qed

theorem satisfied_iff_trail_full_witness:
  "length (trail demo_solver) < 2 ^ 62 \<and> \<not> satisfied demo_solver
   \<and> satisfied (demo_solver \<lparr> trail := [1, - 2, 3] \<rparr>)"
  using satisfied_iff_trail_full [of demo_solver]
    satisfied_iff_trail_full [of "demo_solver \<lparr> trail := [1, - 2, 3] \<rparr>"]
  by (simp add: demo_solver_def)

lemma at_unsigned_vlit:
  assumes "lit_ok s l" and "2 * nat (sint (max_var s)) + 1 < length xs"
  shows "\<exists>w. at_unsigned xs ((if l <s 0 then 1 else 0) + 2 * abs_int l) = Inr w"
proof -
  have "nat \<bar>sint l\<bar> \<le> nat (sint (max_var s))"
    using assms(1) by (auto simp: lit_ok_def)
  then show ?thesis
    using assms(2) by (auto simp: at_unsigned_def unat_vlit [OF assms(1)])
qed

text \<open>
  Claim C9. With tables that cover the variable indices up to \<open>max_var\<close> and the literal
  indices up to \<open>2 * max_var + 1\<close>: the assertions of \<open>vidx\<close> hold exactly for the literals
  with \<open>l \<noteq> 0\<close>, \<open>l \<noteq> INT_MIN\<close> and \<open>|l| \<le> max_var\<close>; for these, \<open>val\<close>, \<open>fixed\<close>, \<open>var\<close>
  and \<open>watches\<close> return a value, so every table access they make is within bounds; for any
  other literal each of them stops at a failed assertion.
\<close>

theorem helper_preconditions:
  assumes "nat (sint (max_var s)) < length (vals s)"
    and "nat (sint (max_var s)) < length (vtab s)"
    and "2 * nat (sint (max_var s)) + 1 < length (wtab s)"
  shows "((\<exists>i. vidx s l = Inr i) \<longleftrightarrow> lit_ok s l)
       \<and> (lit_ok s l \<longrightarrow>
            (\<exists>v. val s l = Inr v) \<and> (\<exists>v. fixed s l = Inr v)
            \<and> (\<exists>v. var s l = Inr v) \<and> (\<exists>ws. watches s l = Inr ws))
       \<and> (\<not> lit_ok s l \<longrightarrow>
            val s l = Inl AssertionFailed \<and> fixed s l = Inl AssertionFailed
            \<and> var s l = Inl AssertionFailed \<and> watches s l = Inl AssertionFailed)"
proof (intro conjI impI)
  show "(\<exists>i. vidx s l = Inr i) \<longleftrightarrow> lit_ok s l" by (simp add: vidx_iff)
next
  assume ok: "lit_ok s l"
  show "\<exists>v. val s l = Inr v"
    using ok assms(1) by (simp add: val_def vidx_ok at_int_abs Let_def)
  show "\<exists>v. fixed s l = Inr v"
    using ok assms(1,2) by (simp add: fixed_def vidx_ok at_int_abs Let_def)
  show "\<exists>v. var s l = Inr v"
    using ok assms(2) by (simp add: var_def vidx_ok at_int_abs)
  show "\<exists>ws. watches s l = Inr ws"
    using at_unsigned_vlit [OF ok assms(3)] ok by (simp add: watches_def vlit_def vidx_ok)
next
  assume bad: "\<not> lit_ok s l"
  show "val s l = Inl AssertionFailed" using bad by (simp add: val_def vidx_not_ok)
  show "fixed s l = Inl AssertionFailed" using bad by (simp add: fixed_def vidx_not_ok)
  show "var s l = Inl AssertionFailed" using bad by (simp add: var_def vidx_not_ok)
  show "watches s l = Inl AssertionFailed"
    using bad by (simp add: watches_def vlit_def vidx_not_ok)
qed

theorem helper_preconditions_witness:
  "nat (sint (max_var demo_solver)) < length (vals demo_solver)
   \<and> nat (sint (max_var demo_solver)) < length (vtab demo_solver)
   \<and> 2 * nat (sint (max_var demo_solver)) + 1 < length (wtab demo_solver)
   \<and> lit_ok demo_solver (- 3) \<and> watches demo_solver (- 3) = Inr []
   \<and> \<not> lit_ok demo_solver 4 \<and> val demo_solver 4 = Inl AssertionFailed
   \<and> \<not> lit_ok demo_solver INT_MIN \<and> var demo_solver INT_MIN = Inl AssertionFailed"
  using helper_preconditions [of demo_solver "- 3"] helper_preconditions [of demo_solver 4]
    helper_preconditions [of demo_solver INT_MIN]
  by (simp add: demo_solver_def lit_ok_def INT_MIN_def watches_def vlit_def vidx_def
      abs_int_def word_sless_alt word_sle_eq at_unsigned_def)

text \<open>
  Claim C10. For a literal \<open>l\<close> with \<open>0 < |l| \<le> max_var\<close> and \<open>l \<noteq> INT_MIN\<close>: \<open>fixed l\<close> is
  \<open>val l\<close> when the variable \<open>|l|\<close> is assigned and its level is zero, and \<open>0\<close> otherwise;
  so a result other than \<open>0\<close> is \<open>val l\<close> and the level of the variable is zero.
\<close>

theorem fixed_root_value:
  assumes "lit_ok s l" and "nat (sint (max_var s)) < length (vals s)"
    and "nat (sint (max_var s)) < length (vtab s)"
  shows "fixed s l =
           (if vals s ! nat \<bar>sint l\<bar> \<noteq> 0 \<and> level (vtab s ! nat \<bar>sint l\<bar>) = 0
            then val s l else Inr 0)
       \<and> (fixed s l \<noteq> Inr 0 \<longrightarrow>
             fixed s l = val s l \<and> level (vtab s ! nat \<bar>sint l\<bar>) = 0)"
proof -
  have f: "fixed s l =
           (if vals s ! nat \<bar>sint l\<bar> \<noteq> 0 \<and> level (vtab s ! nat \<bar>sint l\<bar>) = 0
            then val s l else Inr 0)"
    using assms
    by (simp add: fixed_def val_def vidx_ok at_int_abs Let_def scast_schar_eq_0)
  show ?thesis unfolding f by auto
qed

theorem fixed_root_value_witness:
  "lit_ok demo_solver (- 1) \<and> nat (sint (max_var demo_solver)) < length (vals demo_solver)
   \<and> nat (sint (max_var demo_solver)) < length (vtab demo_solver)
   \<and> fixed demo_solver (- 1) = Inr (- 1) \<and> val demo_solver (- 1) = Inr (- 1)
   \<and> fixed demo_solver 2 = Inr 0 \<and> val demo_solver 2 = Inr (- 1)"
proof -
  have a: "lit_ok demo_solver (- 1)" "lit_ok demo_solver 2"
    by (simp_all add: demo_solver_def lit_ok_def INT_MIN_def)
  have b: "nat (sint (max_var demo_solver)) < length (vals demo_solver)"
    by (simp add: demo_solver_def)
  have c: "nat (sint (max_var demo_solver)) < length (vtab demo_solver)"
    by (simp add: demo_solver_def)
  have v: "val demo_solver (- 1) = Inr (- 1)" "val demo_solver 2 = Inr (- 1)"
    by (simp_all add: demo_solver_def val_def vidx_def INT_MIN_def abs_int_def
        word_sless_alt word_sle_eq at_int_def)
  have "fixed demo_solver (- 1) = Inr (- 1)"
    using fixed_root_value [OF a(1) b c, THEN conjunct1] v(1)
    by (simp add: demo_solver_def)
  moreover have "fixed demo_solver 2 = Inr 0"
    using fixed_root_value [OF a(2) b c, THEN conjunct1]
    by (simp add: demo_solver_def)
  ultimately show ?thesis using a b c v by simp
qed

section \<open>Backtracking\<close>

lemma val_Inr_lit_ok: "val s l = Inr v \<Longrightarrow> lit_ok s l"
  by (auto simp: val_def vidx_iff split: sum.splits)

lemma lit_ok_index: "lit_ok s l \<Longrightarrow> nat \<bar>sint l\<bar> \<le> nat (sint (max_var s))"
  by (auto simp: lit_ok_def)

lemma cursor_at:
  "tables_ok s \<Longrightarrow> at_int (vtab s) (queue_search s) = Inr (vtab s ! nat (sint (queue_search s)))"
  by (auto simp: tables_ok_def at_int_def)

lemma var_ok:
  "tables_ok s \<Longrightarrow> lit_ok s l \<Longrightarrow> var s l = Inr (vtab s ! nat \<bar>sint l\<bar>)"
  by (simp add: var_def vidx_ok at_int_abs tables_ok_def)

lemma val_ok:
  "tables_ok s \<Longrightarrow> lit_ok s l \<Longrightarrow>
   val s l = Inr (if l <s 0 then - scast (vals s ! nat \<bar>sint l\<bar>) else scast (vals s ! nat \<bar>sint l\<bar>))"
  by (simp add: val_def vidx_ok at_int_abs tables_ok_def Let_def)

lemma sint_abs_int_ok: "lit_ok s l \<Longrightarrow> sint (abs_int l) = \<bar>sint l\<bar>"
  by (simp add: lit_ok_def sint_abs_int)

lemma unassign_ok:
  assumes "tables_ok s" and "lit_ok s l"
  shows "unassign s l =
           Inr (s \<lparr> vals := (vals s) [nat \<bar>sint l\<bar> := 0], queue_search := new_cursor s l \<rparr>)"
    and "0 \<le> sint (new_cursor s l) \<and> sint (new_cursor s l) \<le> sint (max_var s)"
proof -
  have i: "nat \<bar>sint l\<bar> < length (vals s)"
    using assms lit_ok_index [of s l] by (simp add: tables_ok_def)
  show "unassign s l =
           Inr (s \<lparr> vals := (vals s) [nat \<bar>sint l\<bar> := 0], queue_search := new_cursor s l \<rparr>)"
    using assms i
    by (simp add: unassign_def var_ok cursor_at Let_def new_cursor_def)
  have "0 \<le> sint (abs_int l) \<and> sint (abs_int l) \<le> sint (max_var s)"
    using assms(2) by (simp add: sint_abs_int_ok) (simp add: lit_ok_def)
  then show "0 \<le> sint (new_cursor s l) \<and> sint (new_cursor s l) \<le> sint (max_var s)"
    using assms(1) by (simp add: new_cursor_def tables_ok_def)
qed

lemma unassign_tables_ok:
  assumes "tables_ok s" and "lit_ok s l" and "unassign s l = Inr s'"
  shows "tables_ok s'"
  using unassign_ok [OF assms(1,2)] assms(1,3) by (auto simp: tables_ok_def)

lemma unassign_frame:
  assumes "tables_ok s" and "lit_ok s l" and "unassign s l = Inr s'"
  shows "max_var s' = max_var s \<and> vtab s' = vtab s \<and> phases s' = phases s
       \<and> wtab s' = wtab s \<and> unsat s' = unsat s \<and> level_of s' = level_of s
       \<and> control s' = control s \<and> trail s' = trail s \<and> propagated s' = propagated s
       \<and> clauses s' = clauses s \<and> conflict s' = conflict s \<and> stats_fixed s' = stats_fixed s
       \<and> vals s' = (vals s) [nat \<bar>sint l\<bar> := 0]"
  using unassign_ok [OF assms(1,2)] assms(3) by auto

lemma length_clear_vals [simp]: "length (clear_vals vs ls) = length vs"
  by (induction ls arbitrary: vs) auto

lemma clear_vals_nth:
  "i < length vs \<Longrightarrow>
   clear_vals vs ls ! i = (if i \<in> (\<lambda>l. nat \<bar>sint l\<bar>) ` set ls then 0 else vs ! i)"
  by (induction ls arbitrary: vs) (auto simp: nth_list_update)

lemma unassign_all_ok:
  assumes "tables_ok s" and "\<forall>l \<in> set ls. lit_ok s l"
  shows "\<exists>s'. unassign_all s ls = Inr s' \<and> tables_ok s'
            \<and> max_var s' = max_var s \<and> vtab s' = vtab s \<and> phases s' = phases s
            \<and> wtab s' = wtab s \<and> unsat s' = unsat s \<and> level_of s' = level_of s
            \<and> control s' = control s \<and> trail s' = trail s \<and> propagated s' = propagated s
            \<and> clauses s' = clauses s \<and> conflict s' = conflict s
            \<and> stats_fixed s' = stats_fixed s
            \<and> vals s' = clear_vals (vals s) ls"
  using assms
proof (induction ls arbitrary: s)
  case Nil
  then show ?case by simp
next
  case (Cons l ls)
  from Cons.prems have ok: "lit_ok s l" by simp
  from unassign_ok(1) [OF Cons.prems(1) ok] obtain s1 where
    u: "unassign s l = Inr s1" by blast
  note f = unassign_frame [OF Cons.prems(1) ok u]
  have t1: "tables_ok s1" by (rule unassign_tables_ok [OF Cons.prems(1) ok u])
  have "\<forall>l \<in> set ls. lit_ok s1 l"
    using Cons.prems(2) f by (simp add: lit_ok_def)
  from Cons.IH [OF t1 this] obtain s' where
    r: "unassign_all s1 ls = Inr s'" "tables_ok s'"
      "max_var s' = max_var s1" "vtab s' = vtab s1" "phases s' = phases s1"
      "wtab s' = wtab s1" "unsat s' = unsat s1" "level_of s' = level_of s1"
      "control s' = control s1" "trail s' = trail s1" "propagated s' = propagated s1"
      "clauses s' = clauses s1" "conflict s' = conflict s1" "stats_fixed s' = stats_fixed s1"
      "vals s' = clear_vals (vals s1) ls"
    by blast
  show ?case
    using u r f by simp
qed

lemma trail_lit_ok: "trail_ok s \<Longrightarrow> l \<in> set (trail s) \<Longrightarrow> lit_ok s l"
  by (auto simp: trail_ok_def dest: val_Inr_lit_ok)

lemma val_frame:
  "max_var s' = max_var s \<Longrightarrow> vals s' = vals s \<Longrightarrow> val s' l = val s l"
  by (simp add: val_def vidx_def Let_def split: sum.splits)

lemma boundary_ok:
  assumes "control_ok s" and "0 \<le> sint k" and "sint k \<le> sint (level_of s)"
  shows "\<exists>b. boundary s k = Inr b \<and> b \<le> length (trail s)
           \<and> (\<forall>i < b. sint (lit_level s (trail s ! i)) \<le> sint k)
           \<and> nat (sint k) + 1 \<le> length (control s)"
proof (cases "k = level_of s")
  case True
  then show ?thesis
    using assms(1) by (auto simp: boundary_def control_ok_def)
next
  case False
  then have "sint k \<noteq> sint (level_of s)" by (metis signed_word_eqI)
  with assms have lt: "nat (sint k) + 1 < length (control s)"
    by (auto simp: control_ok_def)
  let ?b = "trail_start (control s ! (nat (sint k) + 1))"
  from assms(1) lt have b: "?b \<le> length (trail s)"
    and iff: "\<forall>i < length (trail s).
                i < ?b \<longleftrightarrow> sint (lit_level s (trail s ! i)) < int (nat (sint k) + 1)"
    unfolding control_ok_def by blast+
  have "\<forall>i < ?b. sint (lit_level s (trail s ! i)) \<le> sint k"
  proof (intro allI impI)
    fix i assume i: "i < ?b"
    with b have "i < length (trail s)" by simp
    with iff i have "sint (lit_level s (trail s ! i)) < int (nat (sint k) + 1)" by blast
    then show "sint (lit_level s (trail s ! i)) \<le> sint k" using assms(2) by simp
  qed
  then show ?thesis
    using False lt b by (simp add: boundary_def)
qed

lemma val_cleared:
  assumes "tables_ok s" and "lit_ok s l" and "l \<in> set ls"
  shows "val (s \<lparr> vals := clear_vals (vals s) ls \<rparr>) l = Inr 0"
proof -
  let ?s = "s \<lparr> vals := clear_vals (vals s) ls \<rparr>"
  have t: "tables_ok ?s" using assms(1) by (simp add: tables_ok_def)
  have o: "lit_ok ?s l" using assms(2) by (simp add: lit_ok_def)
  have i: "nat \<bar>sint l\<bar> < length (vals s)"
    using assms(1,2) lit_ok_index [of s l] by (simp add: tables_ok_def)
  have "clear_vals (vals s) ls ! nat \<bar>sint l\<bar> = 0"
    using assms(3) i by (simp add: clear_vals_nth)
  then show ?thesis
    using val_ok [OF t o] by simp
qed

text \<open>
  Claim C5. In a state that satisfies the invariants of the trail and the control stack,
  \<open>backtrack k\<close> with \<open>0 \<le> k \<le> level\<close> succeeds, and afterwards: the trail is a prefix of
  the old one and none of its literals has a level above \<open>k\<close>; every literal removed from
  the trail is unassigned; the phase table is unchanged; \<open>propagated\<close> is the size of the new
  trail; and \<open>conflict\<close> is null.
\<close>

theorem backtrack_effect:
  assumes "solver_inv s" and "0 \<le> sint k" and "sint k \<le> sint (level_of s)"
  shows "\<exists>s' b. backtrack s k = Inr s'
           \<and> trail s' = take b (trail s)
           \<and> (\<forall>l \<in> set (trail s'). sint (lit_level s' l) \<le> sint k)
           \<and> (\<forall>l \<in> set (drop b (trail s)). val s' l = Inr 0)
           \<and> phases s' = phases s
           \<and> propagated s' = length (trail s')
           \<and> conflict s' = None"
proof -
  from assms(1) have t: "tables_ok s" and tr: "trail_ok s" and c: "control_ok s"
    by (simp_all add: solver_inv_def)
  from boundary_ok [OF c assms(2,3)] obtain b where
    b: "boundary s k = Inr b" "b \<le> length (trail s)"
       "\<forall>i < b. sint (lit_level s (trail s ! i)) \<le> sint k"
       "nat (sint k) + 1 \<le> length (control s)"
    by blast
  let ?ls = "rev (drop b (trail s))"
  have oks: "\<forall>l \<in> set ?ls. lit_ok s l"
    using tr by (auto dest: in_set_dropD trail_lit_ok)
  from unassign_all_ok [OF t oks] obtain s1 where
    s1: "unassign_all s ?ls = Inr s1" "tables_ok s1" "max_var s1 = max_var s"
        "vtab s1 = vtab s" "phases s1 = phases s" "vals s1 = clear_vals (vals s) ?ls"
    by blast
  let ?s' = "s1 \<lparr> trail := take b (trail s),
                  control := take (nat (sint k) + 1) (control s),
                  level_of := k, propagated := b, conflict := None \<rparr>"
  have bt: "backtrack s k = Inr ?s'"
    using assms(2,3) b s1(1) by (simp add: backtrack_def word_sle_eq)
  have lv: "\<forall>l \<in> set (trail ?s'). sint (lit_level ?s' l) \<le> sint k"
  proof
    fix l assume "l \<in> set (trail ?s')"
    then obtain i where "i < b" "i < length (trail s)" "l = trail s ! i"
      using b(2) by (auto simp: in_set_conv_nth)
    with b(3) show "sint (lit_level ?s' l) \<le> sint k"
      by (simp add: lit_level_def s1(4))
  qed
  have cl: "\<forall>l \<in> set (drop b (trail s)). val ?s' l = Inr 0"
  proof
    fix l assume l: "l \<in> set (drop b (trail s))"
    then have "lit_ok s l" using oks by simp
    from val_cleared [OF t this, of ?ls] l
    have "val (s \<lparr> vals := clear_vals (vals s) ?ls \<rparr>) l = Inr 0" by simp
    moreover have "val ?s' l = val (s \<lparr> vals := clear_vals (vals s) ?ls \<rparr>) l"
      by (rule val_frame) (simp_all add: s1)
    ultimately show "val ?s' l = Inr 0" by simp
  qed
  show ?thesis
    using bt lv cl b(2) s1(5) by (intro exI [of _ ?s'] exI [of _ b]) simp
qed

lemma demo_inv1: "tables_ok demo_solver"
  by (simp add: tables_ok_def demo_solver_def)

lemma demo_inv2: "trail_ok demo_solver"
  by (simp add: trail_ok_def demo_solver_def val_def vidx_def INT_MIN_def abs_int_def
      word_sless_alt word_sle_eq at_int_def)

lemma demo_inv3: "control_ok demo_solver"
  by (simp add: control_ok_def demo_solver_def lit_level_def less_Suc_eq all_conj_distrib)

lemma demo_solver_inv: "solver_inv demo_solver"
  by (simp add: solver_inv_def demo_inv1 demo_inv2 demo_inv3)

lemma demo_backtrack:
  "backtrack demo_solver 0 =
     Inr (demo_solver \<lparr> vals := [0, 1, 0, 0], level_of := 0,
            control := [\<lparr>trail_start = 0, search = 3\<rparr>], trail := [1], propagated := 1 \<rparr>)"
  by (simp add: backtrack_def boundary_def demo_solver_def unassign_def var_def vidx_def
      INT_MIN_def abs_int_def word_sless_alt word_sle_eq at_int_def)

theorem backtrack_effect_witness:
  "solver_inv demo_solver \<and> 0 \<le> sint (0 :: cint) \<and> sint (0 :: cint) \<le> sint (level_of demo_solver)
   \<and> (\<exists>s'. backtrack demo_solver 0 = Inr s' \<and> trail s' = [1] \<and> vals s' = [0, 1, 0, 0]
          \<and> phases s' = [0, 1, - 1, - 1] \<and> propagated s' = 1 \<and> conflict s' = None)"
  using backtrack_effect [OF demo_solver_inv, of 0] demo_solver_inv demo_backtrack
  by (simp add: demo_solver_def)

section \<open>Assignments and backtracking keep the invariants\<close>

lemma abs_index_inj:
  assumes "lit_ok s a" and "lit_ok s b" and "nat \<bar>sint a\<bar> = nat \<bar>sint b\<bar>"
  shows "abs_int a = abs_int b"
proof -
  have "sint (abs_int a) = sint (abs_int b)"
    using assms by (simp add: sint_abs_int_ok)
  then show ?thesis by (rule signed_word_eqI)
qed

lemma abs_index_eq:
  assumes "lit_ok s a" and "lit_ok s b"
  shows "nat \<bar>sint a\<bar> = nat \<bar>sint b\<bar> \<longleftrightarrow> abs_int a = abs_int b"
  using assms abs_index_inj [OF assms] sint_abs_int_ok [of s a] sint_abs_int_ok [of s b]
  by auto

lemma val_zero_entry:
  assumes "tables_ok s" and "val s l = Inr v"
  shows "v = 0 \<longleftrightarrow> vals s ! nat \<bar>sint l\<bar> = 0"
proof -
  have ok: "lit_ok s l" using assms(2) by (rule val_Inr_lit_ok)
  show ?thesis
    using val_ok [OF assms(1) ok] assms(2) by (auto simp: scast_schar_eq_0)
qed

lemma sign_of_nonzero: "sign_of l \<noteq> 0"
  by (simp add: sign_of_def)

lemma assign_Inr:
  assumes "assign s l r = Inr s'"
  shows "val s l = Inr 0"
    and "s' = assigned s l ((vtab s ! nat \<bar>sint l\<bar>)
               \<lparr> level := level_of s, reason := (if level_of s = 0 then None else r) \<rparr>)"
  using assms by (auto simp: assign_def assigned_def Let_def split: sum.splits if_splits)

lemma assign_ok:
  assumes "tables_ok s" and "val s l = Inr 0"
  shows "\<exists>s'. assign s l r = Inr s'"
proof -
  have ok: "lit_ok s l" using assms(2) by (rule val_Inr_lit_ok)
  then show ?thesis
    using assms lit_ok_index [OF ok] by (simp add: assign_def Let_def tables_ok_def)
qed

lemma assigned_tables_ok: "tables_ok s \<Longrightarrow> tables_ok (assigned s l v)"
  by (simp add: tables_ok_def assigned_def)

lemma assigned_trail_ok:
  assumes t: "tables_ok s" and tr: "trail_ok s" and u: "val s l = Inr 0"
  shows "trail_ok (assigned s l v)"
proof -
  let ?s' = "assigned s l v"
  have ok: "lit_ok s l" using u by (rule val_Inr_lit_ok)
  have z: "vals s ! nat \<bar>sint l\<bar> = 0" using val_zero_entry [OF t u] by simp
  have i: "nat \<bar>sint l\<bar> < length (vals s)"
    using t lit_ok_index [OF ok] by (simp add: tables_ok_def)
  have t': "tables_ok ?s'" using t by (rule assigned_tables_ok)
  have mv: "max_var ?s' = max_var s" by (simp add: assigned_def)
  have diff: "nat \<bar>sint x\<bar> \<noteq> nat \<bar>sint l\<bar>" if "x \<in> set (trail s)" for x
  proof
    assume e: "nat \<bar>sint x\<bar> = nat \<bar>sint l\<bar>"
    from tr that have vx: "val s x = Inr 1" by (simp add: trail_ok_def)
    from val_zero_entry [OF t vx] e z show False by simp
  qed
  have old: "val ?s' x = Inr 1" if "x \<in> set (trail s)" for x
  proof -
    from tr that have vx: "val s x = Inr 1" by (simp add: trail_ok_def)
    then have okx: "lit_ok s x" by (rule val_Inr_lit_ok)
    then have okx': "lit_ok ?s' x" by (simp add: lit_ok_def mv)
    have "vals ?s' ! nat \<bar>sint x\<bar> = vals s ! nat \<bar>sint x\<bar>"
      using diff [OF that] by (simp add: assigned_def)
    then have "val ?s' x = val s x"
      unfolding val_ok [OF t' okx'] val_ok [OF t okx] by simp
    then show ?thesis using vx by simp
  qed
  have new: "val ?s' l = Inr 1"
  proof -
    have "lit_ok ?s' l" using ok by (simp add: lit_ok_def mv)
    moreover have "vals ?s' ! nat \<bar>sint l\<bar> = sign_of l"
      using i by (simp add: assigned_def)
    ultimately show ?thesis
      using val_ok [OF t', of l] by (simp add: sign_of_def)
  qed
  have "abs_int l \<notin> abs_int ` set (trail s)"
  proof
    assume "abs_int l \<in> abs_int ` set (trail s)"
    then obtain x where x: "x \<in> set (trail s)" "abs_int l = abs_int x" by blast
    from tr x(1) have "lit_ok s x" by (rule trail_lit_ok)
    from abs_index_eq [OF ok this] x(2) diff [OF x(1)] show False by simp
  qed
  then have "distinct (map abs_int (trail ?s'))"
    using tr by (simp add: trail_ok_def assigned_def)
  moreover have "\<forall>x \<in> set (trail ?s'). val ?s' x = Inr 1"
  proof
    fix x assume "x \<in> set (trail ?s')"
    then have "x \<in> set (trail s) \<or> x = l" by (auto simp: assigned_def)
    then show "val ?s' x = Inr 1" using old new by blast
  qed
  ultimately show ?thesis by (simp add: trail_ok_def)
qed

lemma assigned_lit_level_old:
  assumes t: "tables_ok s" and tr: "trail_ok s" and u: "val s l = Inr 0"
    and x: "x \<in> set (trail s)"
  shows "lit_level (assigned s l v) x = lit_level s x"
proof -
  have z: "vals s ! nat \<bar>sint l\<bar> = 0" using val_zero_entry [OF t u] by simp
  from tr x have vx: "val s x = Inr 1" by (simp add: trail_ok_def)
  from val_zero_entry [OF t vx] z have "nat \<bar>sint x\<bar> \<noteq> nat \<bar>sint l\<bar>" by auto
  then show ?thesis by (simp add: lit_level_def assigned_def)
qed

lemma assigned_lit_level_new:
  assumes t: "tables_ok s" and u: "val s l = Inr 0"
  shows "lit_level (assigned s l v) l = level v"
proof -
  have ok: "lit_ok s l" using u by (rule val_Inr_lit_ok)
  have "nat \<bar>sint l\<bar> < length (vtab s)"
    using t lit_ok_index [OF ok] by (simp add: tables_ok_def)
  then show ?thesis by (simp add: lit_level_def assigned_def)
qed

lemma assigned_control_ok:
  assumes t: "tables_ok s" and tr: "trail_ok s" and c: "control_ok s" and u: "val s l = Inr 0"
    and v: "level v = level_of s"
  shows "control_ok (assigned s l v)"
proof -
  let ?s' = "assigned s l v"
  have f: "level_of ?s' = level_of s" "control ?s' = control s" "trail ?s' = trail s @ [l]"
    by (simp_all add: assigned_def)
  have old: "lit_level ?s' (trail s ! i) = lit_level s (trail s ! i)" if "i < length (trail s)" for i
    using assigned_lit_level_old [OF t tr u, of "trail s ! i" v] that by simp
  have new: "lit_level ?s' l = level_of s"
    using assigned_lit_level_new [OF t u, of v] v by simp
  from c have c1: "0 \<le> sint (level_of s)" "length (control s) = nat (sint (level_of s)) + 1"
    "trail_start (control s ! 0) = 0"
    and c2: "\<And>k. k < length (control s) \<Longrightarrow> trail_start (control s ! k) \<le> length (trail s)"
    and c3: "\<And>k i. k < length (control s) \<Longrightarrow> i < length (trail s) \<Longrightarrow>
               i < trail_start (control s ! k) \<longleftrightarrow> sint (lit_level s (trail s ! i)) < int k"
    and c4: "\<And>x. x \<in> set (trail s) \<Longrightarrow> sint (lit_level s x) \<le> sint (level_of s)"
    unfolding control_ok_def by blast+
  have "i < trail_start (control s ! k) \<longleftrightarrow> sint (lit_level ?s' ((trail s @ [l]) ! i)) < int k"
    if k: "k < length (control s)" and i: "i < length (trail s @ [l])" for k i
  proof (cases "i < length (trail s)")
    case True
    then show ?thesis using c3 [OF k True] old [OF True] by (simp add: nth_append)
  next
    case False
    with i have e: "i = length (trail s)" by simp
    have "\<not> i < trail_start (control s ! k)" using c2 [OF k] e by simp
    moreover have "\<not> sint (level_of s) < int k" using k c1 by simp
    ultimately show ?thesis using e new by (simp add: nth_append)
  qed
  moreover have "sint (lit_level ?s' x) \<le> sint (level_of s)" if "x \<in> set (trail s @ [l])" for x
  proof (cases "x \<in> set (trail s)")
    case True
    then show ?thesis
      using c4 [OF True] assigned_lit_level_old [OF t tr u True, of v] by simp
  next
    case False
    with that have "x = l" by simp
    then show ?thesis using new by simp
  qed
  moreover have "trail_start (control s ! k) \<le> length (trail s @ [l])"
    if "k < length (control s)" for k
    using c2 [OF that] by simp
  ultimately show ?thesis
    unfolding control_ok_def f using c1 by blast
qed

lemma assign_inv:
  assumes "solver_inv s" and "assign s l r = Inr s'"
  shows "solver_inv s'"
proof -
  from assms(1) have t: "tables_ok s" and tr: "trail_ok s" and c: "control_ok s"
    by (simp_all add: solver_inv_def)
  note a = assign_Inr [OF assms(2)]
  show ?thesis
    unfolding a(2) solver_inv_def
    using assigned_tables_ok [OF t] assigned_trail_ok [OF t tr a(1)]
      assigned_control_ok [OF t tr c a(1)]
    by simp
qed

lemma val_eq_entry:
  assumes "tables_ok s" and "tables_ok s'" and "lit_ok s l" and "max_var s' = max_var s"
    and "vals s' ! nat \<bar>sint l\<bar> = vals s ! nat \<bar>sint l\<bar>"
  shows "val s' l = val s l"
proof -
  have "lit_ok s' l" using assms(3,4) by (simp add: lit_ok_def)
  from val_ok [OF assms(2) this] val_ok [OF assms(1,3)] assms(5) show ?thesis by simp
qed

lemma control_mono:
  assumes c: "control_ok s" and jk: "j \<le> k" and k: "k < length (control s)"
  shows "trail_start (control s ! j) \<le> trail_start (control s ! k)"
proof (rule ccontr)
  assume "\<not> trail_start (control s ! j) \<le> trail_start (control s ! k)"
  then have lt: "trail_start (control s ! k) < trail_start (control s ! j)" by simp
  let ?i = "trail_start (control s ! k)"
  from jk k have j: "j < length (control s)" by simp
  from c j have "trail_start (control s ! j) \<le> length (trail s)"
    unfolding control_ok_def by blast
  with lt have i: "?i < length (trail s)" by simp
  from c j i have "?i < trail_start (control s ! j) \<longleftrightarrow> sint (lit_level s (trail s ! ?i)) < int j"
    unfolding control_ok_def by blast
  moreover from c k i have "?i < ?i \<longleftrightarrow> sint (lit_level s (trail s ! ?i)) < int k"
    unfolding control_ok_def by blast
  ultimately show False using lt jk by simp
qed

lemma boundary_cases:
  assumes "control_ok s" and "0 \<le> sint k" and "sint k \<le> sint (level_of s)"
    and "boundary s k = Inr b"
  shows "(k = level_of s \<and> b = length (trail s))
       \<or> (nat (sint k) + 1 < length (control s) \<and> b = trail_start (control s ! (nat (sint k) + 1)))"
  using assms by (auto simp: boundary_def split: if_splits)

lemma backtrack_Inr:
  assumes "solver_inv s" and "backtrack s k = Inr s'"
  shows "\<exists>b s1. 0 \<le> sint k \<and> sint k \<le> sint (level_of s) \<and> boundary s k = Inr b
           \<and> b \<le> length (trail s) \<and> nat (sint k) + 1 \<le> length (control s)
           \<and> unassign_all s (rev (drop b (trail s))) = Inr s1
           \<and> s' = s1 \<lparr> trail := take b (trail s),
                         control := take (nat (sint k) + 1) (control s),
                         level_of := k, propagated := b, conflict := None \<rparr>"
  using assms(2)
  by (auto simp: backtrack_def word_sle_eq split: if_splits sum.splits)

lemma backtrack_inv:
  assumes inv: "solver_inv s" and bt: "backtrack s k = Inr s'"
  shows "solver_inv s'"
proof -
  from inv have t: "tables_ok s" and tr: "trail_ok s" and c: "control_ok s"
    by (simp_all add: solver_inv_def)
  from backtrack_Inr [OF inv bt] obtain b s1 where
    k: "0 \<le> sint k" "sint k \<le> sint (level_of s)" and b: "boundary s k = Inr b"
    and bl: "b \<le> length (trail s)" and kl: "nat (sint k) + 1 \<le> length (control s)"
    and u: "unassign_all s (rev (drop b (trail s))) = Inr s1"
    and s': "s' = s1 \<lparr> trail := take b (trail s),
                         control := take (nat (sint k) + 1) (control s),
                         level_of := k, propagated := b, conflict := None \<rparr>"
    by blast
  let ?ls = "rev (drop b (trail s))"
  have oks: "\<forall>l \<in> set ?ls. lit_ok s l"
    using tr by (auto dest: in_set_dropD trail_lit_ok)
  from unassign_all_ok [OF t oks] u have
    s1: "tables_ok s1" "max_var s1 = max_var s" "vtab s1 = vtab s"
        "vals s1 = clear_vals (vals s) ?ls"
    by auto
  have t': "tables_ok s'" using s1(1) by (simp add: s' tables_ok_def)
  have mv: "max_var s' = max_var s" by (simp add: s' s1)
  have lv: "lit_level s' x = lit_level s x" for x by (simp add: lit_level_def s' s1)
  from boundary_ok [OF c k] b have
    low: "\<forall>i < b. sint (lit_level s (trail s ! i)) \<le> sint k" by simp
  \<comment> \<open>the trail\<close>
  have dist: "distinct (map abs_int (trail s))" using tr by (simp add: trail_ok_def)
  have keep: "val s' x = Inr 1" if x: "x \<in> set (take b (trail s))" for x
  proof -
    from x have xs: "x \<in> set (trail s)" by (rule in_set_takeD)
    with tr have vx: "val s x = Inr 1" and okx: "lit_ok s x"
      by (simp_all add: trail_ok_def trail_lit_ok)
    have "nat \<bar>sint x\<bar> \<notin> (\<lambda>l. nat \<bar>sint l\<bar>) ` set ?ls"
    proof
      assume "nat \<bar>sint x\<bar> \<in> (\<lambda>l. nat \<bar>sint l\<bar>) ` set ?ls"
      then obtain y where y: "y \<in> set (drop b (trail s))" "nat \<bar>sint x\<bar> = nat \<bar>sint y\<bar>"
        by auto
      from y(1) tr have "lit_ok s y" by (auto dest: in_set_dropD trail_lit_ok)
      from abs_index_eq [OF okx this] y(2) have e: "abs_int x = abs_int y" by simp
      have "distinct (map abs_int (take b (trail s)) @ map abs_int (drop b (trail s)))"
        using dist by (simp flip: map_append)
      then have "abs_int ` set (take b (trail s)) \<inter> abs_int ` set (drop b (trail s)) = {}"
        by simp
      with x y(1) e show False by auto
    qed
    moreover have "nat \<bar>sint x\<bar> < length (vals s)"
      using t lit_ok_index [OF okx] by (simp add: tables_ok_def)
    ultimately have "vals s' ! nat \<bar>sint x\<bar> = vals s ! nat \<bar>sint x\<bar>"
      by (simp add: s' s1 clear_vals_nth)
    then have "val s' x = val s x"
      by (rule val_eq_entry [OF t t' okx mv])
    then show ?thesis using vx by simp
  qed
  have "distinct (map abs_int (take b (trail s)))"
    using dist by (simp add: distinct_take flip: take_map)
  with keep have tr': "trail_ok s'" by (simp add: trail_ok_def s')
  \<comment> \<open>the control stack\<close>
  from c have c0: "trail_start (control s ! 0) = 0"
    and c3: "\<And>j i. j < length (control s) \<Longrightarrow> i < length (trail s) \<Longrightarrow>
               i < trail_start (control s ! j) \<longleftrightarrow> sint (lit_level s (trail s ! i)) < int j"
    unfolding control_ok_def by blast+
  have le_b: "trail_start (control s ! j) \<le> b" if j: "j < nat (sint k) + 1" for j
  proof -
    from boundary_cases [OF c k b] show ?thesis
    proof
      assume "k = level_of s \<and> b = length (trail s)"
      moreover from c j kl have "trail_start (control s ! j) \<le> length (trail s)"
        unfolding control_ok_def by simp
      ultimately show ?thesis by simp
    next
      assume a: "nat (sint k) + 1 < length (control s)
                 \<and> b = trail_start (control s ! (nat (sint k) + 1))"
      with control_mono [OF c, of j "nat (sint k) + 1"] j show ?thesis by simp
    qed
  qed
  have c': "control_ok s'"
    unfolding control_ok_def
  proof (intro conjI allI impI ballI)
    show "0 \<le> sint (level_of s')" using k by (simp add: s')
    show "length (control s') = nat (sint (level_of s')) + 1" using kl by (simp add: s')
    show "trail_start (control s' ! 0) = 0" using c0 by (simp add: s')
  next
    fix j assume "j < length (control s')"
    then have j: "j < nat (sint k) + 1" using kl by (simp add: s')
    show "trail_start (control s' ! j) \<le> length (trail s')"
      using le_b [OF j] j bl by (simp add: s')
    fix i assume "i < length (trail s')"
    then have i: "i < b" using bl by (simp add: s')
    with bl have "i < length (trail s)" by simp
    from c3 [OF _ this, of j] j kl i
    show "i < trail_start (control s' ! j) \<longleftrightarrow> sint (lit_level s' (trail s' ! i)) < int j"
      by (simp add: lv) (simp add: s')
  next
    fix x assume "x \<in> set (trail s')"
    then obtain i where "i < b" "x = trail s ! i"
      using bl by (auto simp: s' in_set_conv_nth)
    with low show "sint (lit_level s' x) \<le> sint (level_of s')"
      by (simp add: lv) (simp add: s')
  qed
  show ?thesis using t' tr' c' by (simp add: solver_inv_def)
qed

section \<open>Termination of propagation\<close>

lemma val_zero_in_table:
  assumes "val s l = Inr 0"
  shows "nat \<bar>sint l\<bar> < length (vals s) \<and> vals s ! nat \<bar>sint l\<bar> = 0"
proof -
  have ok: "lit_ok s l" using assms by (rule val_Inr_lit_ok)
  from assms obtain b where
    b: "at_int (vals s) (abs_int l) = Inr b" "(scast b :: cint) = 0"
    by (auto simp: val_def vidx_ok [OF ok] Let_def split: sum.splits if_splits)
  from b(1) have "nat \<bar>sint l\<bar> < length (vals s) \<and> vals s ! nat \<bar>sint l\<bar> = b"
    by (auto simp: at_int_def sint_abs_int_ok [OF ok] split: if_splits)
  with b(2) show ?thesis by (simp add: scast_schar_eq_0)
qed

lemma count_list_update_zero:
  assumes "i < length xs" and "xs ! i = (0 :: schar)" and "v \<noteq> 0"
  shows "Suc (count_list (xs [i := v]) 0) = count_list xs 0"
  using assms
proof (induction xs arbitrary: i)
  case Nil
  then show ?case by simp
next
  case (Cons x xs)
  then show ?case by (cases i) auto
qed

lemma assign_work:
  assumes "assign s l r = Inr s'"
  shows "Suc (work s') = work s \<and> propagated s' = propagated s"
proof -
  note a = assign_Inr [OF assms]
  from val_zero_in_table [OF a(1)] have
    "Suc (count_list ((vals s) [nat \<bar>sint l\<bar> := sign_of l]) 0) = count_list (vals s) 0"
    by (intro count_list_update_zero) (simp_all add: sign_of_nonzero)
  then show ?thesis
    unfolding a(2) by (simp add: work_def assigned_def)
qed

lemma set_literals_simps [simp]:
  "vals (set_literals s c ls) = vals s"
  "trail (set_literals s c ls) = trail s"
  "propagated (set_literals s c ls) = propagated s"
  "max_var (set_literals s c ls) = max_var s"
  "vtab (set_literals s c ls) = vtab s"
  "phases (set_literals s c ls) = phases s"
  "wtab (set_literals s c ls) = wtab s"
  "control (set_literals s c ls) = control s"
  "level_of (set_literals s c ls) = level_of s"
  "conflict (set_literals s c ls) = conflict s"
  "queue_search (set_literals s c ls) = queue_search s"
  "unsat (set_literals s c ls) = unsat s"
  "stats_fixed (set_literals s c ls) = stats_fixed s"
  by (simp_all add: set_literals_def)

lemma watch_literal_Inr:
  assumes "watch_literal s k b c = Inr s'"
  shows "\<exists>i. vlit s k = Inr i \<and> unat i < length (wtab s)
           \<and> s' = s \<lparr> wtab := (wtab s) [unat i := wtab s ! unat i @ [(b, c)]] \<rparr>"
  using assms by (auto simp: watch_literal_def split: sum.splits if_splits)

lemma work_set_literals [simp]: "work (set_literals s c ls) = work s"
  by (simp add: work_def)

lemma propagate_watch_cases [consumes 1, case_names blocked garbage satisfied replaced conflicting unit]:
  assumes "propagate_watch s l (blit, c) = Inr (r, s')"
  obtains
    b where "val s blit = Inr b" "0 <s b" "r = Kept (blit, c)" "s' = s"
  | b where "val s blit = Inr b" "\<not> 0 <s b" "c < length (clauses s)" "garbage (clauses s ! c)"
      "r = Dropped" "s' = s"
  | b lits s1 u where "val s blit = Inr b" "\<not> 0 <s b" "c < length (clauses s)"
      "\<not> garbage (clauses s ! c)" "2 \<le> length (literals (clauses s ! c))"
      "lits = other_first l (literals (clauses s ! c))" "s1 = set_literals s c lits"
      "val s1 (lits ! 0) = Inr u" "0 <s u" "r = Kept (lits ! 0, c)" "s' = s1"
  | b lits s1 u j where "val s blit = Inr b" "\<not> 0 <s b" "c < length (clauses s)"
      "\<not> garbage (clauses s ! c)" "2 \<le> length (literals (clauses s ! c))"
      "lits = other_first l (literals (clauses s ! c))" "s1 = set_literals s c lits"
      "val s1 (lits ! 0) = Inr u" "\<not> 0 <s u"
      "find_nonfalse s1 (drop 2 lits) 2 = Inr (Some j)" "lits ! j \<noteq> - l"
      "watch_literal (set_literals s1 c (swap_at 1 j lits)) (lits ! j) (lits ! 0) c = Inr s'"
      "r = Dropped"
  | b lits s1 u where "val s blit = Inr b" "\<not> 0 <s b" "c < length (clauses s)"
      "\<not> garbage (clauses s ! c)" "2 \<le> length (literals (clauses s ! c))"
      "lits = other_first l (literals (clauses s ! c))" "s1 = set_literals s c lits"
      "val s1 (lits ! 0) = Inr u" "u <s 0"
      "find_nonfalse s1 (drop 2 lits) 2 = Inr None"
      "r = Conflicting" "s' = s1 \<lparr> conflict := Some c \<rparr>"
  | b lits s1 where "val s blit = Inr b" "\<not> 0 <s b" "c < length (clauses s)"
      "\<not> garbage (clauses s ! c)" "2 \<le> length (literals (clauses s ! c))"
      "lits = other_first l (literals (clauses s ! c))" "s1 = set_literals s c lits"
      "val s1 (lits ! 0) = Inr 0"
      "find_nonfalse s1 (drop 2 lits) 2 = Inr None"
      "assign s1 (lits ! 0) (Some c) = Inr s'" "r = Kept (blit, c)"
proof -
  from assms obtain b where b: "val s blit = Inr b"
    by (auto simp: propagate_watch_def split: sum.splits)
  show ?thesis
  proof (cases "0 <s b")
    case True
    with assms b show ?thesis by (intro that(1) [of b]) (auto simp: propagate_watch_def)
  next
    case nb: False
    with assms b have c: "c < length (clauses s)"
      by (auto simp: propagate_watch_def split: if_splits)
    show ?thesis
    proof (cases "garbage (clauses s ! c)")
      case True
      with assms b nb c show ?thesis
        by (intro that(2) [of b]) (auto simp: propagate_watch_def)
    next
      case ng: False
      with assms b nb c have len: "2 \<le> length (literals (clauses s ! c))"
        by (auto simp: propagate_watch_def split: if_splits)
      define lits where "lits = other_first l (literals (clauses s ! c))"
      define s1 where "s1 = set_literals s c lits"
      have eq: "propagate_watch s l (blit, c) =
                 (case val s1 (lits ! 0) of
                  Inl e \<Rightarrow> Inl e
                | Inr u \<Rightarrow>
                    if 0 <s u then Inr (Kept (lits ! 0, c), s1)
                    else
                      (case find_nonfalse s1 (drop 2 lits) 2 of
                         Inl e \<Rightarrow> Inl e
                       | Inr (Some j) \<Rightarrow>
                           if lits ! j = - l then Inl AssertionFailed
                           else
                             (case watch_literal (set_literals s1 c (swap_at 1 j lits))
                                     (lits ! j) (lits ! 0) c of
                                Inl e \<Rightarrow> Inl e
                              | Inr s3 \<Rightarrow> Inr (Dropped, s3))
                       | Inr None \<Rightarrow>
                           if u <s 0 then Inr (Conflicting, s1 \<lparr> conflict := Some c \<rparr>)
                           else
                             (case assign s1 (lits ! 0) (Some c) of
                                Inl e \<Rightarrow> Inl e
                              | Inr s2 \<Rightarrow> Inr (Kept (blit, c), s2))))"
        unfolding lits_def s1_def
        using b nb c ng len by (simp add: propagate_watch_def Let_def)
      from assms eq obtain u where u: "val s1 (lits ! 0) = Inr u"
        by (auto split: sum.splits)
      show ?thesis
      proof (cases "0 <s u")
        case True
        with assms eq u show ?thesis
          by (intro that(3) [OF b nb c ng len lits_def s1_def u]) auto
      next
        case nu: False
        with assms eq u obtain f where f: "find_nonfalse s1 (drop 2 lits) 2 = Inr f"
          by (auto split: sum.splits)
        show ?thesis
        proof (cases f)
          case (Some j)
          with assms eq u nu f show ?thesis
            by (intro that(4) [OF b nb c ng len lits_def s1_def u nu, of j])
              (auto split: if_splits sum.splits)
        next
          case None
          show ?thesis
          proof (cases "u <s 0")
            case True
            with assms eq u nu f None show ?thesis
              by (intro that(5) [OF b nb c ng len lits_def s1_def u]) auto
          next
            case False
            with nu have "sint u = 0" by (simp add: word_sless_alt)
            then have u0: "u = 0" by (simp add: sint_eq_0)
            with assms eq u f None show ?thesis
              by (intro that(6) [OF b nb c ng len lits_def s1_def])
                (auto simp: word_sless_alt split: sum.splits)
          qed
        qed
      qed
    qed
  qed
qed

lemma propagate_watch_work:
  assumes "propagate_watch s l w = Inr (r, s')"
  shows "work s' \<le> work s \<and> propagated s' = propagated s"
proof -
  obtain blit c where w: "w = (blit, c)" by (cases w)
  from assms [unfolded w] show ?thesis
  proof (cases rule: propagate_watch_cases)
    case (replaced b lits s1 u j)
    from watch_literal_Inr [OF replaced(12)] show ?thesis
      by (auto simp: work_def replaced(7))
  next
    case (unit b lits s1)
    from assign_work [OF unit(10)] show ?thesis by (simp add: unit(7))
  qed (simp_all add: work_def)
qed

lemma propagate_watches_work:
  assumes "propagate_watches s l ws kept = Inr (f, ws', s')"
  shows "work s' \<le> work s \<and> propagated s' = propagated s"
  using assms
proof (induction ws arbitrary: s kept)
  case Nil
  then show ?case by simp
next
  case (Cons w ws)
  from Cons.prems obtain r s1 where
    1: "propagate_watch s l w = Inr (r, s1)"
    by (auto split: sum.splits)
  note m = propagate_watch_work [OF 1]
  show ?case
  proof (cases r)
    case (Kept w')
    with Cons.prems 1 have "propagate_watches s1 l ws (kept @ [w']) = Inr (f, ws', s')" by simp
    from Cons.IH [OF this] m show ?thesis by simp
  next
    case Dropped
    with Cons.prems 1 have "propagate_watches s1 l ws kept = Inr (f, ws', s')" by simp
    from Cons.IH [OF this] m show ?thesis by simp
  next
    case Conflicting
    with Cons.prems 1 have "s' = s1" by simp
    with m show ?thesis by simp
  qed
qed

lemma propagate_literal_measure:
  assumes "propagate_literal s = Inr (f, s')"
  shows "propagate_measure s' < propagate_measure s"
proof -
  let ?s0 = "s \<lparr> propagated := propagated s + 1 \<rparr>"
  let ?l = "trail s ! propagated s"
  from assms have p: "propagated s < length (trail s)"
    by (auto simp: propagate_literal_def split: if_splits)
  from assms p obtain ws ws' s1 and i :: cunsigned where
    1: "propagate_watches ?s0 ?l ws [] = Inr (f, ws', s1)"
    and 2: "s' = s1 \<lparr> wtab := (wtab s1) [unat i := ws'] \<rparr>"
    by (fastforce simp: propagate_literal_def Let_def split: sum.splits if_splits)
  from propagate_watches_work [OF 1] have "work s1 \<le> work s" "propagated s1 = propagated s + 1"
    by (simp_all add: work_def)
  then have "work s' \<le> work s" "propagated s' = propagated s + 1"
    by (simp_all add: 2 work_def)
  moreover have "propagated s < work s" using p by (simp add: work_def)
  ultimately show ?thesis
    by (simp add: propagate_measure_def work_def)
qed

text \<open>
  Modelled from the spec: \<open>bool propagate ()\<close> of propagate.cpp (section 4.3). It "advances
  \<open>propagated\<close> through the trail until equal to \<open>trail.size ()\<close>" and "returns true on clean
  exhaustion, false on conflict".
\<close>

function propagate :: "Solver \<Rightarrow> error + (bool \<times> Solver)" where
  "propagate s =
     (if propagated s < length (trail s) then
        (case propagate_literal s of
           Inl e \<Rightarrow> Inl e
         | Inr (found, s') \<Rightarrow> if found then Inr (False, s') else propagate s')
      else Inr (True, s))"
  by pat_completeness auto

termination
proof (relation "measure propagate_measure")
  show "wf (measure propagate_measure)" by simp
next
  fix s :: Solver and x2 and found :: bool and s' :: Solver
  assume "propagate_literal s = Inr x2" and "(found, s') = x2"
  then have "propagate_literal s = Inr (found, s')" by simp
  then show "(s', s) \<in> measure propagate_measure"
    by (simp add: propagate_literal_measure)
qed

declare propagate.simps [simp del]

section \<open>Propagation fails no assertion and ends in one of two ways\<close>

lemma val_updates [simp]:
  "val (s \<lparr> conflict := x \<rparr>) l = val s l"
  "val (s \<lparr> wtab := w \<rparr>) l = val s l"
  "val (s \<lparr> propagated := p \<rparr>) l = val s l"
  "val (set_literals s c ls) l = val s l"
  by (rule val_frame; simp)+

lemma lit_ok_updates [simp]:
  "lit_ok (s \<lparr> conflict := x \<rparr>) l = lit_ok s l"
  "lit_ok (s \<lparr> wtab := w \<rparr>) l = lit_ok s l"
  "lit_ok (s \<lparr> propagated := p \<rparr>) l = lit_ok s l"
  "lit_ok (set_literals s c ls) l = lit_ok s l"
  by (simp_all add: lit_ok_def)

lemma lit_level_updates [simp]:
  "lit_level (s \<lparr> conflict := x \<rparr>) l = lit_level s l"
  "lit_level (s \<lparr> wtab := w \<rparr>) l = lit_level s l"
  "lit_level (s \<lparr> propagated := p \<rparr>) l = lit_level s l"
  "lit_level (set_literals s c ls) l = lit_level s l"
  by (simp_all add: lit_level_def)

lemma solver_inv_updates [simp]:
  "solver_inv (s \<lparr> conflict := x \<rparr>) = solver_inv s"
  "solver_inv (s \<lparr> propagated := p \<rparr>) = solver_inv s"
  "solver_inv (set_literals s c ls) = solver_inv s"
  by (simp_all add: solver_inv_def tables_ok_def trail_ok_def control_ok_def)

lemma solver_inv_wtab:
  "length w = length (wtab s) \<Longrightarrow> solver_inv (s \<lparr> wtab := w \<rparr>) = solver_inv s"
  by (simp add: solver_inv_def tables_ok_def trail_ok_def control_ok_def)

lemma clauses_ok_updates [simp]:
  "clauses_ok (s \<lparr> conflict := x \<rparr>) = clauses_ok s"
  "clauses_ok (s \<lparr> propagated := p \<rparr>) = clauses_ok s"
  "clauses_ok (s \<lparr> wtab := w \<rparr>) = clauses_ok s"
  by (simp_all add: clauses_ok_def)

lemma watch_ok_updates [simp]:
  "watch_ok (s \<lparr> conflict := x \<rparr>) w = watch_ok s w"
  "watch_ok (s \<lparr> propagated := p \<rparr>) w = watch_ok s w"
  "watch_ok (s \<lparr> wtab := wt \<rparr>) w = watch_ok s w"
  "watch_ok (set_literals s c ls) w = watch_ok s w"
  by (simp_all add: watch_ok_def set_literals_def lit_ok_def)

lemma watches_ok_updates [simp]:
  "watches_ok (s \<lparr> conflict := x \<rparr>) = watches_ok s"
  "watches_ok (s \<lparr> propagated := p \<rparr>) = watches_ok s"
  "watches_ok (set_literals s c ls) = watches_ok s"
  by (simp_all add: watches_ok_def)

lemma set_swap_at:
  "i < length xs \<Longrightarrow> j < length xs \<Longrightarrow> set (swap_at i j xs) = set xs"
  unfolding swap_at_def by (metis set_swap)

lemma length_swap_at [simp]: "length (swap_at i j xs) = length xs"
  by (simp add: swap_at_def)

lemma other_first_props:
  "2 \<le> length xs \<Longrightarrow> set (other_first l xs) = set xs"
  "length (other_first l xs) = length xs"
proof -
  assume "2 \<le> length xs"
  then have "set (swap_at 0 1 xs) = set xs" by (intro set_swap_at) auto
  then show "set (other_first l xs) = set xs" by (simp add: other_first_def)
next
  show "length (other_first l xs) = length xs" by (simp add: other_first_def)
qed

lemma clauses_ok_set_literals:
  assumes "clauses_ok s" and "c < length (clauses s)"
    and "set ls = set (literals (clauses s ! c))" and "length ls = length (literals (clauses s ! c))"
  shows "clauses_ok (set_literals s c ls)"
  unfolding clauses_ok_def
proof (intro ballI impI)
  fix C assume C: "C \<in> set (clauses (set_literals s c ls))" and g: "\<not> garbage C"
  from C have "C \<in> set (clauses s) \<or> C = (clauses s ! c) \<lparr> literals := ls \<rparr>"
    by (auto simp: set_literals_def dest: set_update_subset_insert [THEN subsetD])
  then show "2 \<le> length (literals C) \<and> (\<forall>k \<in> set (literals C). lit_ok (set_literals s c ls) k)"
  proof
    assume "C \<in> set (clauses s)"
    with assms(1) g show ?thesis by (simp add: clauses_ok_def)
  next
    assume e: "C = (clauses s ! c) \<lparr> literals := ls \<rparr>"
    with g have "\<not> garbage (clauses s ! c)" by simp
    moreover have "clauses s ! c \<in> set (clauses s)" using assms(2) by simp
    ultimately show ?thesis
      using assms(1,3,4) e by (simp add: clauses_ok_def)
  qed
qed

lemma clauses_okD:
  assumes "clauses_ok s" and "c < length (clauses s)" and "\<not> garbage (clauses s ! c)"
  shows "2 \<le> length (literals (clauses s ! c))"
    and "\<And>k. k \<in> set (literals (clauses s ! c)) \<Longrightarrow> lit_ok s k"
  using assms nth_mem [OF assms(2)] by (auto simp: clauses_ok_def)

lemma set_literals_props [simp]:
  "length (clauses (set_literals s c ls)) = length (clauses s)"
  "c < length (clauses s) \<Longrightarrow> literals (clauses (set_literals s c ls) ! c) = ls"
  "c < length (clauses s) \<Longrightarrow> garbage (clauses (set_literals s c ls) ! c) = garbage (clauses s ! c)"
  by (simp_all add: set_literals_def)

lemma val_total:
  "tables_ok s \<Longrightarrow> lit_ok s l \<Longrightarrow> \<exists>v. val s l = Inr v"
  by (simp add: val_ok)

lemma val_neg:
  assumes "tables_ok s" and "val s l = Inr v"
  shows "val s (- l) = Inr (- v)"
proof -
  have ok: "lit_ok s l" using assms(2) by (rule val_Inr_lit_ok)
  then have ok': "lit_ok s (- l)" by (simp add: lit_ok_neg)
  from ok have n: "l \<noteq> INT_MIN" "l \<noteq> 0" by (simp_all add: lit_ok_def)
  have "\<bar>sint (- l)\<bar> = \<bar>sint l\<bar>" using n by (simp add: sint_neg)
  then show ?thesis
    using val_ok [OF assms(1) ok] val_ok [OF assms(1) ok'] assms(2) sless_0_neg [OF n]
    by (auto split: if_splits)
qed

lemma find_nonfalse_None:
  assumes "find_nonfalse s ks j = Inr None"
  shows "\<forall>k \<in> set ks. is_false s k"
  using assms
proof (induction ks arbitrary: j)
  case Nil
  then show ?case by simp
next
  case (Cons k ks)
  from Cons.prems obtain v where v: "val s k = Inr v" "v <s 0"
    by (auto split: sum.splits if_splits)
  with Cons.prems have "find_nonfalse s ks (j + 1) = Inr None" by simp
  from Cons.IH [OF this] v show ?case by (simp add: is_false_def)
qed

lemma find_nonfalse_Some:
  assumes "find_nonfalse s ks j = Inr (Some i)"
  shows "j \<le> i \<and> i < j + length ks \<and> (\<exists>v. val s (ks ! (i - j)) = Inr v \<and> \<not> v <s 0)"
  using assms
proof (induction ks arbitrary: j)
  case Nil
  then show ?case by simp
next
  case (Cons k ks)
  from Cons.prems obtain v where v: "val s k = Inr v" by (auto split: sum.splits)
  show ?case
  proof (cases "v <s 0")
    case True
    with Cons.prems v have "find_nonfalse s ks (j + 1) = Inr (Some i)" by simp
    from Cons.IH [OF this] show ?thesis by (auto simp: nth_Cons')
  next
    case False
    with Cons.prems v show ?thesis by simp
  qed
qed

lemma find_nonfalse_total:
  assumes "tables_ok s" and "\<forall>k \<in> set ks. lit_ok s k"
  shows "\<exists>r. find_nonfalse s ks j = Inr r"
  using assms(2)
proof (induction ks arbitrary: j)
  case Nil
  then show ?case by simp
next
  case (Cons k ks)
  from val_total [OF assms(1), of k] Cons.prems obtain v where "val s k = Inr v" by auto
  with Cons show ?case by simp
qed

lemma vlit_in_table:
  assumes "tables_ok s" and "lit_ok s k"
  shows "\<exists>i. vlit s k = Inr i \<and> unat i < length (wtab s)"
proof -
  have "nat \<bar>sint k\<bar> \<le> nat (sint (max_var s))" using assms(2) by (rule lit_ok_index)
  moreover have "2 * nat (sint (max_var s)) + 1 < length (wtab s)"
    using assms(1) by (simp add: tables_ok_def)
  ultimately show ?thesis
    using unat_vlit [OF assms(2)] by (auto simp: vlit_def vidx_ok [OF assms(2)])
qed

lemma clauses_ok_cong:
  "clauses s' = clauses s \<Longrightarrow> max_var s' = max_var s \<Longrightarrow> clauses_ok s' = clauses_ok s"
  by (simp add: clauses_ok_def lit_ok_def)

lemma watches_ok_cong:
  "wtab s' = wtab s \<Longrightarrow> length (clauses s') = length (clauses s) \<Longrightarrow> max_var s' = max_var s
   \<Longrightarrow> watches_ok s' = watches_ok s"
  by (simp add: watches_ok_def watch_ok_def lit_ok_def)

lemma watch_ok_cong:
  "length (clauses s') = length (clauses s) \<Longrightarrow> max_var s' = max_var s
   \<Longrightarrow> watch_ok s' w = watch_ok s w"
  by (simp add: watch_ok_def lit_ok_def)

lemma assigned_frame [simp]:
  "max_var (assigned s l v) = max_var s"
  "clauses (assigned s l v) = clauses s"
  "wtab (assigned s l v) = wtab s"
  "conflict (assigned s l v) = conflict s"
  "propagated (assigned s l v) = propagated s"
  "trail (assigned s l v) = trail s @ [l]"
  "level_of (assigned s l v) = level_of s"
  "control (assigned s l v) = control s"
  "unsat (assigned s l v) = unsat s"
  by (simp_all add: assigned_def)

lemma propagate_watch_ok:
  assumes inv: "solver_inv s" and cl: "clauses_ok s" and ws: "watches_ok s"
    and w: "watch_ok s w" and l: "l \<in> set (trail s)"
  shows "\<exists>r s'. propagate_watch s l w = Inr (r, s') \<and> watch_step s r s'"
proof -
  obtain blit c where wbc: "w = (blit, c)" by (cases w)
  from inv have t: "tables_ok s" and tr: "trail_ok s" by (simp_all add: solver_inv_def)
  from w wbc have okb: "lit_ok s blit" and c: "c < length (clauses s)"
    by (simp_all add: watch_ok_def)
  from val_total [OF t okb] obtain b where b: "val s blit = Inr b" by blast
  have same: "watch_step s (Kept w) s" "watch_step s Dropped s"
    using inv cl ws w by (simp_all add: watch_step_def)
  show ?thesis
  proof (cases "0 <s b")
    case True
    with b same(1) show ?thesis by (simp add: propagate_watch_def wbc)
  next
    case nb: False
    show ?thesis
    proof (cases "garbage (clauses s ! c)")
      case True
      with b nb c same(2) show ?thesis by (simp add: propagate_watch_def wbc)
    next
      case ng: False
      note cd = clauses_okD [OF cl c ng]
      define lits where "lits = other_first l (literals (clauses s ! c))"
      define s1 where "s1 = set_literals s c lits"
      have lits: "set lits = set (literals (clauses s ! c))"
        "length lits = length (literals (clauses s ! c))"
        using cd(1) by (simp_all add: lits_def other_first_props)
      have len: "2 \<le> length lits" using cd(1) lits(2) by simp
      have oks: "lit_ok s k" if "k \<in> set lits" for k using that cd(2) lits(1) by simp
      have inv1: "solver_inv s1" and t1: "tables_ok s1" and ws1: "watches_ok s1"
        using inv t ws by (simp_all add: s1_def tables_ok_def)
      have cl1: "clauses_ok s1"
        unfolding s1_def by (rule clauses_ok_set_literals [OF cl c lits])
      have f1: "max_var s1 = max_var s" "length (clauses s1) = length (clauses s)"
        "wtab s1 = wtab s" "trail s1 = trail s" "propagated s1 = propagated s"
        "conflict s1 = conflict s" "literals (clauses s1 ! c) = lits"
        using c by (simp_all add: s1_def)
      have ok0: "lit_ok s (lits ! 0)" using len by (intro oks nth_mem) auto
      from val_total [OF t ok0] obtain u where u: "val s1 (lits ! 0) = Inr u"
        by (auto simp: s1_def)
      have "\<forall>k \<in> set (drop 2 lits). lit_ok s1 k"
        using oks by (auto simp: s1_def dest: in_set_dropD)
      from find_nonfalse_total [OF t1 this] obtain f where
        f: "find_nonfalse s1 (drop 2 lits) 2 = Inr f" by blast
      have eq0: "propagate_watch s l w =
                 (case val s1 (lits ! 0) of
                  Inl e \<Rightarrow> Inl e
                | Inr u \<Rightarrow>
                    if 0 <s u then Inr (Kept (lits ! 0, c), s1)
                    else
                      (case find_nonfalse s1 (drop 2 lits) 2 of
                         Inl e \<Rightarrow> Inl e
                       | Inr (Some j) \<Rightarrow>
                           if lits ! j = - l then Inl AssertionFailed
                           else
                             (case watch_literal (set_literals s1 c (swap_at 1 j lits))
                                     (lits ! j) (lits ! 0) c of
                                Inl e \<Rightarrow> Inl e
                              | Inr s3 \<Rightarrow> Inr (Dropped, s3))
                       | Inr None \<Rightarrow>
                           if u <s 0 then Inr (Conflicting, s1 \<lparr> conflict := Some c \<rparr>)
                           else
                             (case assign s1 (lits ! 0) (Some c) of
                                Inl e \<Rightarrow> Inl e
                              | Inr s2 \<Rightarrow> Inr (Kept (blit, c), s2))))"
        unfolding lits_def s1_def
        using b nb c ng cd(1) by (simp add: propagate_watch_def wbc Let_def del: val_updates)
      have eq: "propagate_watch s l w =
                 (if 0 <s u then Inr (Kept (lits ! 0, c), s1)
                  else
                    (case f of
                       Some j \<Rightarrow>
                         if lits ! j = - l then Inl AssertionFailed
                         else
                           (case watch_literal (set_literals s1 c (swap_at 1 j lits))
                                   (lits ! j) (lits ! 0) c of
                              Inl e \<Rightarrow> Inl e
                            | Inr s3 \<Rightarrow> Inr (Dropped, s3))
                     | None \<Rightarrow>
                         if u <s 0 then Inr (Conflicting, s1 \<lparr> conflict := Some c \<rparr>)
                         else
                           (case assign s1 (lits ! 0) (Some c) of
                              Inl e \<Rightarrow> Inl e
                            | Inr s2 \<Rightarrow> Inr (Kept (blit, c), s2))))"
        unfolding eq0 u f by (simp split: option.splits)
      show ?thesis
      proof (cases "0 <s u")
        case True
        have "watch_step s (Kept (lits ! 0, c)) s1"
          using inv1 cl1 ws1 f1 ok0 c by (simp add: watch_step_def watch_ok_def lit_ok_def)
        with True eq show ?thesis by simp
      next
        case nu: False
        show ?thesis
        proof (cases f)
          case (Some j)
          from find_nonfalse_Some [OF f [unfolded Some]] obtain v where
            j0: "2 \<le> j" "j < 2 + length (drop 2 lits)"
            and v0: "val s1 (drop 2 lits ! (j - 2)) = Inr v" "\<not> v <s 0"
            by blast
          from j0 len have j: "2 \<le> j" "j < length lits" by simp_all
          then have "Suc (Suc (j - 2)) = j" by arith
          with j have "drop 2 lits ! (j - 2) = lits ! j" by simp
          with v0 have v: "val s1 (lits ! j) = Inr v" "\<not> v <s 0" by simp_all
          have okj: "lit_ok s (lits ! j)" using j by (intro oks nth_mem)
          from tr l have "val s l = Inr 1" by (simp add: trail_ok_def)
          from val_neg [OF t this] have "val s1 (- l) = Inr (- 1)" by (simp add: s1_def)
          with v have ne: "lits ! j \<noteq> - l" by (auto simp: word_sless_alt)
          define lits2 where "lits2 = swap_at 1 j lits"
          define s2 where "s2 = set_literals s1 c lits2"
          have lits2: "set lits2 = set lits" "length lits2 = length lits"
            using j len by (simp_all add: lits2_def set_swap_at)
          have t2: "tables_ok s2" and inv2: "solver_inv s2" and ws2: "watches_ok s2"
            using t1 inv1 ws1 by (simp_all add: s2_def tables_ok_def)
          have cl2: "clauses_ok s2"
            unfolding s2_def
            by (rule clauses_ok_set_literals [OF cl1]) (simp_all add: f1 c lits2)
          have "lit_ok s2 (lits ! j)" using okj by (simp add: s2_def s1_def)
          from vlit_in_table [OF t2 this] obtain i where
            i: "vlit s2 (lits ! j) = Inr i" "unat i < length (wtab s2)" by blast
          define s3 where
            "s3 = s2 \<lparr> wtab := (wtab s2) [unat i := wtab s2 ! unat i @ [(lits ! 0, c)]] \<rparr>"
          have wl: "watch_literal s2 (lits ! j) (lits ! 0) c = Inr s3"
            using i by (simp add: watch_literal_def s3_def)
          have f3: "max_var s3 = max_var s" "length (clauses s3) = length (clauses s)"
            "length (wtab s3) = length (wtab s)" "trail s3 = trail s"
            "propagated s3 = propagated s" "conflict s3 = conflict s"
            by (simp_all add: s3_def s2_def f1)
          have inv3: "solver_inv s3"
            unfolding s3_def using inv2 by (simp add: solver_inv_wtab)
          have cl3: "clauses_ok s3" using cl2 by (simp add: s3_def)
          have new: "watch_ok s2 (lits ! 0, c)"
            using ok0 c by (simp add: watch_ok_def s2_def s1_def)
          have ws3: "watches_ok s3"
            unfolding watches_ok_def
          proof (intro ballI)
            fix xs x assume xs: "xs \<in> set (wtab s3)" and x: "x \<in> set xs"
            from xs have "xs \<in> set (wtab s2) \<or> xs = wtab s2 ! unat i @ [(lits ! 0, c)]"
              by (auto simp: s3_def dest: set_update_subset_insert [THEN subsetD])
            then have "watch_ok s2 x"
            proof
              assume "xs \<in> set (wtab s2)"
              with ws2 x show ?thesis by (simp add: watches_ok_def)
            next
              assume "xs = wtab s2 ! unat i @ [(lits ! 0, c)]"
              with x have "x \<in> set (wtab s2 ! unat i) \<or> x = (lits ! 0, c)" by auto
              then show ?thesis
                using ws2 i(2) new nth_mem [OF i(2)] by (auto simp: watches_ok_def)
            qed
            then show "watch_ok s3 x" by (simp add: s3_def)
          qed
          have "watch_step s Dropped s3"
            using inv3 cl3 ws3 f3 by (simp add: watch_step_def)
          with eq nu Some ne wl show ?thesis by (simp add: s2_def lits2_def)
        next
          case None
          show ?thesis
          proof (cases "u <s 0")
            case True
            let ?s' = "s1 \<lparr> conflict := Some c \<rparr>"
            have "\<forall>k \<in> set (drop 2 lits). is_false s1 k"
              using f None by (auto dest: find_nonfalse_None)
            then have "detected_conflict ?s' c"
              using c len u True f1 by (simp add: detected_conflict_def is_false_def)
            then have "watch_step s Conflicting ?s'"
              using inv1 cl1 ws1 f1 by (simp add: watch_step_def)
            with eq nu None True show ?thesis by simp
          next
            case False
            with nu have "sint u = 0" by (simp add: word_sless_alt)
            then have "u = 0" by (simp add: sint_eq_0)
            with u have u0: "val s1 (lits ! 0) = Inr 0" by simp
            from assign_ok [OF t1 u0] obtain s2 where
              a: "assign s1 (lits ! 0) (Some c) = Inr s2" by blast
            note a2 = assign_Inr(2) [OF a]
            have inv2: "solver_inv s2" by (rule assign_inv [OF inv1 a])
            have cl2: "clauses_ok s2"
              by (rule clauses_ok_cong [THEN iffD2, OF _ _ cl1]) (simp_all add: a2)
            have ws2: "watches_ok s2"
              by (rule watches_ok_cong [THEN iffD2, OF _ _ _ ws1]) (simp_all add: a2)
            have "watch_ok s2 (blit, c)"
              using w wbc f1 by (simp add: a2 watch_ok_def lit_ok_def)
            then have "watch_step s (Kept (blit, c)) s2"
              using inv2 cl2 ws2 f1 by (auto simp: watch_step_def a2)
            with eq nu None False a show ?thesis by simp
          qed
        qed
      qed
    qed
  qed
qed

lemma propagate_watches_ok:
  assumes "solver_inv s" and "clauses_ok s" and "watches_ok s"
    and "\<forall>w \<in> set rest. watch_ok s w" and "\<forall>w \<in> set kept. watch_ok s w"
    and "l \<in> set (trail s)"
  shows "\<exists>found ws' s'. propagate_watches s l rest kept = Inr (found, ws', s')
           \<and> scan_result s found ws' s'"
  using assms
proof (induction rest arbitrary: s kept)
  case Nil
  then show ?case by (auto simp: scan_result_def)
next
  case (Cons w rest)
  from Cons.prems have w: "watch_ok s w" by simp
  from propagate_watch_ok [OF Cons.prems(1-3) w Cons.prems(6)] obtain r s1 where
    1: "propagate_watch s l w = Inr (r, s1)" and st: "watch_step s r s1" by blast
  from st have inv1: "solver_inv s1" "clauses_ok s1" "watches_ok s1"
    and f1: "max_var s1 = max_var s" "length (clauses s1) = length (clauses s)"
      "length (wtab s1) = length (wtab s)" "length (trail s) \<le> length (trail s1)"
      "propagated s1 = propagated s"
    and l1: "l \<in> set (trail s1)"
    using Cons.prems(6) by (auto simp: watch_step_def)
  have tr: "watch_ok s1 x = watch_ok s x" for x
    by (rule watch_ok_cong) (simp_all add: f1)
  have rest1: "\<forall>x \<in> set rest. watch_ok s1 x" and kept1: "\<forall>x \<in> set kept. watch_ok s1 x"
    and w1: "watch_ok s1 w"
    using Cons.prems(4,5) by (simp_all add: tr)
  have cont: "\<exists>found ws' s'. propagate_watches s1 l rest k = Inr (found, ws', s')
           \<and> scan_result s found ws' s'"
    if k: "\<forall>x \<in> set k. watch_ok s1 x" and c: "conflict s1 = conflict s" for k
  proof -
    from Cons.IH [OF inv1 rest1 k l1] obtain found ws' s' where
      2: "propagate_watches s1 l rest k = Inr (found, ws', s')"
      and r: "scan_result s1 found ws' s'" by blast
    from r f1 c have "scan_result s found ws' s'" by (simp add: scan_result_def)
    with 2 show ?thesis by blast
  qed
  show ?case
  proof (cases r)
    case (Kept w')
    with st have "watch_ok s1 w'" "conflict s1 = conflict s" by (simp_all add: watch_step_def)
    with cont [of "kept @ [w']"] kept1 1 Kept show ?thesis by simp
  next
    case Dropped
    with st have "conflict s1 = conflict s" by (simp add: watch_step_def)
    with cont [of kept] kept1 1 Dropped show ?thesis by simp
  next
    case Conflicting
    with st have "\<exists>c. conflict s1 = Some c \<and> detected_conflict s1 c"
      by (simp add: watch_step_def)
    with inv1 f1 rest1 kept1 w1 have "scan_result s True (kept @ w # rest) s1"
      by (auto simp: scan_result_def)
    with 1 Conflicting show ?thesis by auto
  qed
qed

lemma detected_conflict_wtab [simp]:
  "detected_conflict (s \<lparr> wtab := w \<rparr>) c = detected_conflict s c"
  by (simp add: detected_conflict_def is_false_def)

lemma propagate_literal_ok:
  assumes inv: "propagate_inv s" and p: "propagated s < length (trail s)"
  shows "\<exists>found s'. propagate_literal s = Inr (found, s') \<and> propagate_inv s'
           \<and> (if found then \<exists>c. conflict s' = Some c \<and> detected_conflict s' c
               else conflict s' = conflict s)"
proof -
  define l where "l = trail s ! propagated s"
  define s0 where "s0 = s \<lparr> propagated := propagated s + 1 \<rparr>"
  from inv have i0: "solver_inv s0" "clauses_ok s0" "watches_ok s0"
    by (simp_all add: propagate_inv_def s0_def)
  then have t0: "tables_ok s0" and tr0: "trail_ok s0" by (simp_all add: solver_inv_def)
  have l0: "l \<in> set (trail s0)" using p by (simp add: l_def s0_def)
  with tr0 have "lit_ok s0 l" by (rule trail_lit_ok)
  then have okn: "lit_ok s0 (- l)" by (simp add: lit_ok_neg)
  from vlit_in_table [OF t0 okn] obtain i where
    i: "vlit s0 (- l) = Inr i" "unat i < length (wtab s0)" by blast
  define ws where "ws = wtab s0 ! unat i"
  have w: "watches s0 (- l) = Inr ws"
    using i by (simp add: watches_def at_unsigned_def ws_def)
  have "ws \<in> set (wtab s0)" using i(2) by (simp add: ws_def)
  with i0(3) have wsok: "\<forall>x \<in> set ws. watch_ok s0 x" by (simp add: watches_ok_def)
  from propagate_watches_ok [OF i0 wsok _ l0, of "[]"] obtain found ws' s1 where
    1: "propagate_watches s0 l ws [] = Inr (found, ws', s1)"
    and r: "scan_result s0 found ws' s1" by auto
  from r have i1: "solver_inv s1" "clauses_ok s1" "watches_ok s1"
    and f1: "max_var s1 = max_var s0" "length (wtab s1) = length (wtab s0)"
      "length (trail s0) \<le> length (trail s1)" "propagated s1 = propagated s0"
    and k1: "\<forall>x \<in> set ws'. watch_ok s1 x"
    and c1: "if found then \<exists>c. conflict s1 = Some c \<and> detected_conflict s1 c
             else conflict s1 = conflict s0"
    by (simp_all add: scan_result_def)
  have "vlit s1 (- l) = vlit s0 (- l)" by (simp add: vlit_def vidx_def f1(1))
  with i(1) have i': "vlit s1 (- l) = Inr i" by simp
  define s' where "s' = s1 \<lparr> wtab := (wtab s1) [unat i := ws'] \<rparr>"
  have res: "propagate_literal s = Inr (found, s')"
    unfolding propagate_literal_def Let_def l_def [symmetric] s0_def [symmetric]
    using p w 1 i' i(2) f1(2) by (simp add: s'_def)
  have "solver_inv s'" using i1(1) by (simp add: s'_def solver_inv_wtab)
  moreover have "clauses_ok s'" using i1(2) by (simp add: s'_def)
  moreover have "watches_ok s'"
    unfolding watches_ok_def
  proof (intro ballI)
    fix xs x assume "xs \<in> set (wtab s')" and x: "x \<in> set xs"
    then have "xs \<in> set (wtab s1) \<or> xs = ws'"
      by (auto simp: s'_def dest: set_update_subset_insert [THEN subsetD])
    with x i1(3) k1 have "watch_ok s1 x" by (auto simp: watches_ok_def)
    then show "watch_ok s' x" by (simp add: s'_def)
  qed
  moreover have "propagated s' \<le> length (trail s')"
    using p f1 by (simp add: s'_def s0_def)
  moreover have "if found then \<exists>c. conflict s' = Some c \<and> detected_conflict s' c
               else conflict s' = conflict s"
    using c1 by (simp add: s'_def s0_def)
  ultimately show ?thesis using res by (simp add: propagate_inv_def)
qed

lemma propagate_ok:
  assumes "propagate_inv s" and "conflict s = None"
  shows "\<exists>b s'. propagate s = Inr (b, s') \<and> propagate_inv s'
           \<and> (b \<longrightarrow> propagated s' = length (trail s') \<and> conflict s' = None)
           \<and> (\<not> b \<longrightarrow> (\<exists>c. conflict s' = Some c \<and> detected_conflict s' c))"
  using assms
proof (induction s rule: propagate.induct)
  case (1 s)
  show ?case
  proof (cases "propagated s < length (trail s)")
    case False
    with "1.prems" have "propagated s = length (trail s)" by (simp add: propagate_inv_def)
    with False "1.prems" show ?thesis by (subst propagate.simps) auto
  next
    case True
    from propagate_literal_ok [OF "1.prems"(1) True] obtain found s1 where
      pl: "propagate_literal s = Inr (found, s1)" and i1: "propagate_inv s1"
      and c1: "if found then \<exists>c. conflict s1 = Some c \<and> detected_conflict s1 c
               else conflict s1 = conflict s"
      by blast
    show ?thesis
    proof (cases found)
      case True
      with pl i1 c1 \<open>propagated s < length (trail s)\<close> show ?thesis
        by (subst propagate.simps) auto
    next
      case False
      with c1 "1.prems"(2) have "conflict s1 = None" by simp
      from "1.IH" [OF True pl refl False i1 this] obtain b s' where
        "propagate s1 = Inr (b, s')" "propagate_inv s'"
        "b \<longrightarrow> propagated s' = length (trail s') \<and> conflict s' = None"
        "\<not> b \<longrightarrow> (\<exists>c. conflict s' = Some c \<and> detected_conflict s' c)"
        by blast
      with pl False True show ?thesis
        by (subst propagate.simps) auto
    qed
  qed
qed

lemma demo_conflict_run:
  "(case propagate demo_conflict of Inl e \<Rightarrow> None | Inr (b, s') \<Rightarrow> Some (b, conflict s', propagated s', trail s'))
    = Some (False, Some 3, 1, [1, 3])"
  by code_simp

lemma demo_clean_run:
  "(case propagate demo_clean of Inl e \<Rightarrow> None | Inr (b, s') \<Rightarrow> Some (b, conflict s', propagated s', trail s'))
    = Some (True, None, 4, [- 1, 2, 4, - 3])"
  by code_simp

lemma demo_conflict_inv: "propagate_inv demo_conflict"
  by (simp add: propagate_inv_def solver_inv_def tables_ok_def trail_ok_def control_ok_def
     clauses_ok_def watches_ok_def watch_ok_def lit_ok_def lit_level_def
      demo_conflict_def val_def vidx_def INT_MIN_def abs_int_def unassigned_var_def mk_clause_def
      word_sless_alt word_sle_eq at_int_def less_Suc_eq all_conj_distrib)

lemma demo_clean_inv: "propagate_inv demo_clean"
  by (simp add: propagate_inv_def solver_inv_def tables_ok_def trail_ok_def control_ok_def
     clauses_ok_def watches_ok_def watch_ok_def lit_ok_def lit_level_def
      demo_clean_def val_def vidx_def INT_MIN_def abs_int_def unassigned_var_def mk_clause_def
      word_sless_alt word_sle_eq at_int_def less_Suc_eq all_conj_distrib)

lemma demo_no_conflict: "conflict demo_conflict = None" "conflict demo_clean = None"
  by (simp_all add: demo_conflict_def demo_clean_def)

text \<open>
  Claim C1. In a state that satisfies the invariants of the trail, the control stack,
  the clauses and the watches, and in which no conflict is pending, \<open>propagate ()\<close> returns
  (the recursion ends and no assertion fails), and it returns true if and only if
  \<open>propagated\<close> equals the size of the trail and \<open>conflict\<close> is null, and false if and only
  if \<open>conflict\<close> is set to a clause that step 5 of the propagator found conflicting: its
  first literal and all literals from the third on are false.
\<close>

theorem propagate_outcome:
  assumes "propagate_inv s" and "conflict s = None"
  shows "\<exists>b s'. propagate s = Inr (b, s')
           \<and> (b \<longleftrightarrow> propagated s' = length (trail s') \<and> conflict s' = None)
           \<and> (\<not> b \<longleftrightarrow> (\<exists>c. conflict s' = Some c \<and> detected_conflict s' c))"
proof -
  from propagate_ok [OF assms] obtain b s' where
    r: "propagate s = Inr (b, s')"
    and t: "b \<longrightarrow> propagated s' = length (trail s') \<and> conflict s' = None"
    and f: "\<not> b \<longrightarrow> (\<exists>c. conflict s' = Some c \<and> detected_conflict s' c)"
    by blast
  have "b \<longleftrightarrow> propagated s' = length (trail s') \<and> conflict s' = None"
    using t f by (cases b) auto
  moreover have "\<not> b \<longleftrightarrow> (\<exists>c. conflict s' = Some c \<and> detected_conflict s' c)"
    using t f by (cases b) auto
  ultimately show ?thesis using r by blast
qed

theorem propagate_outcome_witness:
  "propagate_inv demo_conflict \<and> conflict demo_conflict = None
   \<and> (\<exists>s'. propagate demo_conflict = Inr (False, s') \<and> conflict s' = Some 3
          \<and> detected_conflict s' 3)
   \<and> propagate_inv demo_clean \<and> conflict demo_clean = None
   \<and> (\<exists>s'. propagate demo_clean = Inr (True, s') \<and> conflict s' = None
          \<and> propagated s' = 4 \<and> trail s' = [- 1, 2, 4, - 3])"
proof -
  from propagate_outcome [OF demo_conflict_inv demo_no_conflict(1)] obtain b s' where
    r: "propagate demo_conflict = Inr (b, s')"
    and c: "\<not> b \<longleftrightarrow> (\<exists>c. conflict s' = Some c \<and> detected_conflict s' c)"
    by blast
  from demo_conflict_run r have "b = False" "conflict s' = Some 3" by simp_all
  with r c have 1: "\<exists>s'. propagate demo_conflict = Inr (False, s') \<and> conflict s' = Some 3
          \<and> detected_conflict s' 3"
    by auto
  from propagate_outcome [OF demo_clean_inv demo_no_conflict(2)] obtain b' s'' where
    r': "propagate demo_clean = Inr (b', s'')" by blast
  from demo_clean_run r' have 2: "\<exists>s'. propagate demo_clean = Inr (True, s') \<and> conflict s' = None
          \<and> propagated s' = 4 \<and> trail s' = [- 1, 2, 4, - 3]"
    by simp
  show ?thesis
    using 1 2 demo_conflict_inv demo_clean_inv demo_no_conflict by simp
qed

section \<open>Decisions and propagation keep the invariants\<close>

lemma sint_succ: "x \<noteq> (2147483647 :: cint) \<Longrightarrow> sint (x + 1) = sint x + 1"
proof -
  assume a: "x \<noteq> 2147483647"
  have "sint x \<noteq> 2147483647"
  proof
    assume "sint x = 2147483647"
    then have "sint x = sint (2147483647 :: cint)" by simp
    then have "x = 2147483647" by (rule signed_word_eqI)
    with a show False by simp
  qed
  with sint_bounds32 [of x] have "- (2 ^ 31) \<le> sint x + 1 \<and> sint x + 1 < 2 ^ 31" by simp
  then show ?thesis
    by (simp add: sint_word_add signed_take_bit_int_eq_self)
qed

lemma decide_inv:
  assumes inv: "solver_inv s" and d: "decide s l = Inr s'"
  shows "solver_inv s'"
proof -
  define s1 where
    "s1 = s \<lparr> level_of := level_of s + 1,
              control := control s @ [\<lparr> trail_start = length (trail s), search = queue_search s \<rparr>] \<rparr>"
  from d have nmax: "level_of s \<noteq> 2147483647" and a: "assign s1 l None = Inr s'"
    by (auto simp: decide_def s1_def split: if_splits)
  from inv have t: "tables_ok s" and tr: "trail_ok s" and c: "control_ok s"
    by (simp_all add: solver_inv_def)
  have t1: "tables_ok s1" using t by (simp add: tables_ok_def s1_def)
  have "val s1 x = val s x" for x by (rule val_frame) (simp_all add: s1_def)
  then have tr1: "trail_ok s1" using tr by (simp add: trail_ok_def s1_def)
  have lv: "lit_level s1 x = lit_level s x" for x by (simp add: lit_level_def s1_def)
  from c have c1: "0 \<le> sint (level_of s)" "length (control s) = nat (sint (level_of s)) + 1"
    "trail_start (control s ! 0) = 0"
    and c2: "\<And>k. k < length (control s) \<Longrightarrow> trail_start (control s ! k) \<le> length (trail s)"
    and c3: "\<And>k i. k < length (control s) \<Longrightarrow> i < length (trail s) \<Longrightarrow>
               i < trail_start (control s ! k) \<longleftrightarrow> sint (lit_level s (trail s ! i)) < int k"
    and c4: "\<And>x. x \<in> set (trail s) \<Longrightarrow> sint (lit_level s x) \<le> sint (level_of s)"
    unfolding control_ok_def by blast+
  have f1: "level_of s1 = level_of s + 1" "trail s1 = trail s"
    "control s1 = control s @ [\<lparr> trail_start = length (trail s), search = queue_search s \<rparr>]"
    by (simp_all add: s1_def)
  have sl: "sint (level_of s1) = sint (level_of s) + 1"
    using nmax by (simp add: f1 sint_succ)
  have c1': "control_ok s1"
    unfolding control_ok_def
  proof (intro conjI allI impI ballI)
    show "0 \<le> sint (level_of s1)" using c1 sl by simp
    show "length (control s1) = nat (sint (level_of s1)) + 1" using c1 sl by (simp add: f1)
    show "trail_start (control s1 ! 0) = 0" using c1 by (simp add: f1 nth_append)
  next
    fix k assume k: "k < length (control s1)"
    show "trail_start (control s1 ! k) \<le> length (trail s1)"
      using k c2 [of k] by (auto simp: f1 nth_append)
    fix i assume i: "i < length (trail s1)"
    show "i < trail_start (control s1 ! k) \<longleftrightarrow> sint (lit_level s1 (trail s1 ! i)) < int k"
    proof (cases "k < length (control s)")
      case True
      with c3 [OF True, of i] i show ?thesis by (simp add: f1 nth_append lv)
    next
      case False
      with k have e: "k = length (control s)" by (simp add: f1)
      from i have "trail s ! i \<in> set (trail s)" by (simp add: f1)
      from c4 [OF this] have "sint (lit_level s (trail s ! i)) < int k"
        using c1 e by simp
      with i e show ?thesis by (simp add: f1 nth_append lv)
    qed
  next
    fix x assume "x \<in> set (trail s1)"
    then have "x \<in> set (trail s)" by (simp add: f1)
    from c4 [OF this] show "sint (lit_level s1 x) \<le> sint (level_of s1)"
      using sl by (simp add: lv)
  qed
  have "solver_inv s1" using t1 tr1 c1' by (simp add: solver_inv_def)
  then show ?thesis using a by (rule assign_inv)
qed

lemma propagate_watch_inv:
  assumes "solver_inv s" and "propagate_watch s l w = Inr (r, s')"
  shows "solver_inv s'"
proof -
  obtain blit c where w: "w = (blit, c)" by (cases w)
  from assms(2) [unfolded w] show ?thesis
  proof (cases rule: propagate_watch_cases)
    case (replaced b lits s1 u j)
    from watch_literal_Inr [OF replaced(12)] assms(1) show ?thesis
      by (auto simp: replaced(7) solver_inv_wtab)
  next
    case (unit b lits s1)
    from assms(1) have "solver_inv s1" by (simp add: unit(7))
    then show ?thesis using unit(10) by (rule assign_inv)
  qed (simp_all add: assms(1))
qed

lemma propagate_watches_inv:
  assumes "solver_inv s" and "propagate_watches s l ws kept = Inr (f, ws', s')"
  shows "solver_inv s'"
  using assms
proof (induction ws arbitrary: s kept)
  case Nil
  then show ?case by simp
next
  case (Cons w ws)
  from Cons.prems(2) obtain r s1 where
    1: "propagate_watch s l w = Inr (r, s1)"
    by (auto split: sum.splits)
  note i1 = propagate_watch_inv [OF Cons.prems(1) 1]
  show ?case
  proof (cases r)
    case (Kept w')
    with Cons.prems 1 have "propagate_watches s1 l ws (kept @ [w']) = Inr (f, ws', s')" by simp
    from Cons.IH [OF i1 this] show ?thesis .
  next
    case Dropped
    with Cons.prems 1 have "propagate_watches s1 l ws kept = Inr (f, ws', s')" by simp
    from Cons.IH [OF i1 this] show ?thesis .
  next
    case Conflicting
    with Cons.prems 1 have "s' = s1" by simp
    with i1 show ?thesis by simp
  qed
qed

lemma propagate_literal_inv:
  assumes "solver_inv s" and "propagate_literal s = Inr (f, s')"
  shows "solver_inv s'"
proof -
  let ?s0 = "s \<lparr> propagated := propagated s + 1 \<rparr>"
  let ?l = "trail s ! propagated s"
  from assms(2) obtain ws ws' s1 and i :: cunsigned where
    1: "propagate_watches ?s0 ?l ws [] = Inr (f, ws', s1)"
    and 2: "s' = s1 \<lparr> wtab := (wtab s1) [unat i := ws'] \<rparr>"
    by (fastforce simp: propagate_literal_def Let_def split: sum.splits if_splits)
  from assms(1) have "solver_inv ?s0" by simp
  from propagate_watches_inv [OF this 1] show ?thesis
    by (simp add: 2 solver_inv_wtab)
qed

lemma propagate_inv_solver:
  assumes "solver_inv s" and "propagate s = Inr (b, s')"
  shows "solver_inv s'"
  using assms
proof (induction s rule: propagate.induct)
  case (1 s)
  show ?case
  proof (cases "propagated s < length (trail s)")
    case False
    with "1.prems" show ?thesis by (subst (asm) propagate.simps) simp
  next
    case True
    with "1.prems"(2) obtain f s1 where
      pl: "propagate_literal s = Inr (f, s1)"
      by (subst (asm) propagate.simps) (auto split: sum.splits)
    note i1 = propagate_literal_inv [OF "1.prems"(1) pl]
    show ?thesis
    proof (cases f)
      case True
      with "1.prems"(2) pl \<open>propagated s < length (trail s)\<close> have "s' = s1"
        by (subst (asm) propagate.simps) simp
      with i1 show ?thesis by simp
    next
      case False
      with "1.prems"(2) pl True have "propagate s1 = Inr (b, s')"
        by (subst (asm) propagate.simps) simp
      from "1.IH" [OF True pl refl False i1 this] show ?thesis .
    qed
  qed
qed

section \<open>The states between two operations of the search loop (section 4.9 of the specification)\<close>

text \<open>
  Modelled from the spec: the state in which the solver starts (sections 3 and 4.9): the
  tables are allocated, no variable is assigned, the trail is empty and the control stack
  holds the entry of the root level only.
\<close>

definition initial :: "Solver \<Rightarrow> bool" where
  "initial s \<longleftrightarrow>
     tables_ok s \<and> list_all (\<lambda>v. v = 0) (vals s)
     \<and> trail s = [] \<and> propagated s = 0 \<and> conflict s = None
     \<and> level_of s = 0 \<and> length (control s) = 1 \<and> trail_start (control s ! 0) = 0"

text \<open>
  Modelled from the spec: what the remaining work of \<open>analyze\<close>, \<open>restart\<close> and \<open>reduce\<close>
  (sections 4.4, 4.7 and 4.8) may change besides their calls of \<open>backtrack\<close> and \<open>assign\<close>:
  the clauses, the watch lists, reasons, timestamps and the search pointer of the queue,
  \<open>propagated\<close>, \<open>conflict\<close>, \<open>unsat\<close> and the statistics; the values, the levels of the
  variables, the trail, the control stack and the level stay as they are.
\<close>

definition store_step :: "Solver \<Rightarrow> Solver \<Rightarrow> bool" where
  "store_step s s' \<longleftrightarrow>
     max_var s' = max_var s \<and> vals s' = vals s
     \<and> map level (vtab s') = map level (vtab s)
     \<and> length (phases s') = length (phases s) \<and> length (wtab s') = length (wtab s)
     \<and> 0 \<le> sint (queue_search s') \<and> sint (queue_search s') \<le> sint (max_var s')
     \<and> level_of s' = level_of s \<and> control s' = control s \<and> trail s' = trail s"

text \<open>
  Modelled from the spec: the states between two operations of the search loop (section
  4.9). \<open>propagate\<close>, \<open>decide\<close> and \<open>backtrack\<close> are steps; \<open>analyze\<close> is a \<open>store_step\<close>, a
  \<open>backtrack\<close> to the backjump level and an \<open>assign\<close> of the asserting literal; \<open>restart\<close> is a
  \<open>backtrack\<close>; \<open>reduce\<close> is a \<open>store_step\<close> and \<open>assign\<close>s; the parser \<open>assign\<close>s the units of
  the input.
\<close>

inductive reachable :: "Solver \<Rightarrow> bool" where
  start: "initial s \<Longrightarrow> reachable s"
| after_assign: "reachable s \<Longrightarrow> assign s l r = Inr s' \<Longrightarrow> reachable s'"
| after_decide: "reachable s \<Longrightarrow> decide s l = Inr s' \<Longrightarrow> reachable s'"
| after_backtrack: "reachable s \<Longrightarrow> backtrack s k = Inr s' \<Longrightarrow> reachable s'"
| after_propagate: "reachable s \<Longrightarrow> propagate s = Inr (b, s') \<Longrightarrow> reachable s'"
| after_store: "reachable s \<Longrightarrow> store_step s s' \<Longrightarrow> reachable s'"

lemma initial_inv:
  assumes "initial s"
  shows "solver_inv s"
  using assms
  by (simp add: initial_def solver_inv_def trail_ok_def control_ok_def)

lemma store_step_inv:
  assumes inv: "solver_inv s" and st: "store_step s s'"
  shows "solver_inv s'"
proof -
  from inv have t: "tables_ok s" and tr: "trail_ok s" and c: "control_ok s"
    by (simp_all add: solver_inv_def)
  from st have f: "max_var s' = max_var s" "vals s' = vals s"
    "map level (vtab s') = map level (vtab s)"
    "level_of s' = level_of s" "control s' = control s" "trail s' = trail s"
    by (simp_all add: store_step_def)
  from f(3) have len: "length (vtab s') = length (vtab s)" by (rule map_eq_imp_length_eq)
  have t': "tables_ok s'"
    using t st len by (auto simp: tables_ok_def store_step_def)
  have "val s' x = val s x" for x by (rule val_frame) (simp_all add: f)
  then have tr': "trail_ok s'" using tr by (simp add: trail_ok_def f)
  have lv: "lit_level s' x = lit_level s x" if "x \<in> set (trail s)" for x
  proof -
    from tr that have "lit_ok s x" by (rule trail_lit_ok)
    from lit_ok_index [OF this] t have i: "nat \<bar>sint x\<bar> < length (vtab s)"
      by (simp add: tables_ok_def)
    then have "level (vtab s' ! nat \<bar>sint x\<bar>) = map level (vtab s') ! nat \<bar>sint x\<bar>"
      using len by simp
    also have "\<dots> = level (vtab s ! nat \<bar>sint x\<bar>)" using i by (simp add: f(3))
    finally show ?thesis by (simp add: lit_level_def)
  qed
  have "control_ok s'"
    using c lv unfolding control_ok_def f by simp
  with t' tr' show ?thesis by (simp add: solver_inv_def)
qed

lemma reachable_inv: "reachable s \<Longrightarrow> solver_inv s"
proof (induction rule: reachable.induct)
  case (start s)
  then show ?case by (rule initial_inv)
next
  case (after_assign s l r s')
  then show ?case by (blast intro: assign_inv)
next
  case (after_decide s l s')
  then show ?case by (blast intro: decide_inv)
next
  case (after_backtrack s k s')
  then show ?case by (blast intro: backtrack_inv)
next
  case (after_propagate s b s')
  then show ?case by (blast intro: propagate_inv_solver)
next
  case (after_store s s')
  then show ?case by (blast intro: store_step_inv)
qed

text \<open>
  Claim C8. In every state between two operations of the search loop, the control stack
  holds one entry per decision level, the root level included: its size is \<open>level + 1\<close>; and
  entry \<open>k\<close> holds the trail position at which level \<open>k\<close> began: the literals before that
  position are those of a level below \<open>k\<close>.
\<close>

theorem control_stack_per_level:
  assumes "reachable s"
  shows "int (length (control s)) = sint (level_of s) + 1
       \<and> trail_start (control s ! 0) = 0
       \<and> (\<forall>k < length (control s).
             trail_start (control s ! k) \<le> length (trail s)
             \<and> (\<forall>i < length (trail s).
                   i < trail_start (control s ! k)
                   \<longleftrightarrow> sint (lit_level s (trail s ! i)) < int k))"
proof -
  from assms have "control_ok s" by (simp add: reachable_inv [unfolded solver_inv_def])
  then show ?thesis unfolding control_ok_def by auto
qed

lemma demo_start_initial: "initial demo_start"
  by (simp add: initial_def tables_ok_def demo_start_def demo_clean_def)

lemma demo_start_decide: "decide demo_start (- 1) = Inr demo_clean"
  by (simp add: decide_def assign_def val_def vidx_def INT_MIN_def abs_int_def at_int_def
      word_sless_alt word_sle_eq sign_of_def demo_start_def demo_clean_def unassigned_var_def)

lemma demo_clean_reachable: "reachable demo_clean"
  using reachable.start [OF demo_start_initial] demo_start_decide
  by (rule reachable.after_decide)

theorem control_stack_per_level_witness:
  "reachable demo_clean
   \<and> length (control demo_clean) = 2 \<and> level_of demo_clean = 1
   \<and> trail_start (control demo_clean ! 1) = 0
   \<and> lit_level demo_clean (trail demo_clean ! 0) = 1"
  using control_stack_per_level [OF demo_clean_reachable] demo_clean_reachable
  by (simp add: demo_clean_def lit_level_def unassigned_var_def)

end
